theory Spec2Isabelle
  imports Main
begin

section \<open>The mailbox: message queue, pending receivers, promises and timers\<close>

text \<open>
  \<^verbatim>\<open>addWorker\<close> (src/src/index.ts) keeps, on the initiating side, the arrays
  \<^verbatim>\<open>messageQueue\<close> and \<^verbatim>\<open>pendingReceivers\<close> (lines 154-155); \<^verbatim>\<open>workerBootstrap\<close>
  keeps a second pair with the same names inside the worker (lines 84-85). The functions
  \<^verbatim>\<open>receive\<close>, \<^verbatim>\<open>poll\<close> and the \<^verbatim>\<open>message\<close> listener over them are written twice, with
  the same statements on both sides (lines 91-118 and 132-141 in the worker, lines 163-191
  and 222-230 on the initiating side), so one set of definitions models both copies.

  A \<^verbatim>\<open>resolver\<close> closure is created by each call of \<^verbatim>\<open>receive\<close> that finds the queue
  empty; \<^verbatim>\<open>pendingReceivers.indexOf(resolver)\<close> compares closures by identity. The model
  names each call of \<^verbatim>\<open>receive\<close> by a number, taken from a counter, which stands for the
  identity of the promise the call returns, of its \<^verbatim>\<open>resolver\<close> closure and of its
  \<^verbatim>\<open>timer\<close> variable. The promises and the timers the runtime holds are an explicit
  store from these numbers.

  A promise is pending or resolved; \<^verbatim>\<open>resolve(undefined)\<close> is \<open>Resolved None\<close>.
  A timer entry \<open>timers e p = Some d\<close> says that the timer set by call \<open>p\<close> is armed and
  may run from time \<open>d\<close> on (times are whole milliseconds of one clock).
\<close>

datatype 'm promise = Pending | Resolved "'m option"

record 'm mailbox =
  messageQueue :: "'m list"
  pendingReceivers :: "nat list"
  promises :: "nat \<Rightarrow> 'm promise option"
  timers :: "nat \<Rightarrow> nat option"
  fresh :: nat

definition empty_mailbox :: "'m mailbox" where
  "empty_mailbox =
     \<lparr>messageQueue = [], pendingReceivers = [], promises = (\<lambda>_. None),
      timers = (\<lambda>_. None), fresh = 0\<rparr>"

text \<open>
  \<^verbatim>\<open>resolve(v)\<close> of a promise: the first call settles it, later calls do nothing
  (the language's promise semantics).
\<close>

definition resolve :: "nat \<Rightarrow> 'm option \<Rightarrow> 'm mailbox \<Rightarrow> 'm mailbox" where
  "resolve p v e =
     (if promises e p = Some Pending
      then e\<lparr>promises := (promises e)(p \<mapsto> Resolved v)\<rparr> else e)"

text \<open>
  \<^verbatim>\<open>const resolver = (msg) => { if (timer !== null) clearTimeout(timer); resolve(msg) }\<close>
\<close>

definition resolver :: "nat \<Rightarrow> 'm \<Rightarrow> 'm mailbox \<Rightarrow> 'm mailbox" where
  "resolver p msg e = resolve p (Some msg) (e\<lparr>timers := (timers e)(p := None)\<rparr>)"

text \<open>
  The callback given to \<^verbatim>\<open>setTimeout\<close>:
  \<^verbatim>\<open>const index = pendingReceivers.indexOf(resolver)
  if (index >= 0) { pendingReceivers.splice(index, 1) }
  resolve(undefined)\<close>
\<close>

definition timer_callback :: "nat \<Rightarrow> 'm mailbox \<Rightarrow> 'm mailbox" where
  "timer_callback p e =
     resolve p None (e\<lparr>pendingReceivers := remove1 p (pendingReceivers e)\<rparr>)"

text \<open>
  The delay \<^verbatim>\<open>setTimeout(callback, timeoutMs)\<close> waits for. The code passes \<^verbatim>\<open>timeoutMs\<close>
  on unchecked (lines 177-184); the runtime takes the delay as a signed 32-bit integer
  (the value modulo \<open>2^32\<close>, read as signed) and a negative delay as zero. So a delay
  from 0 to 2147483647 is taken as given, and 2147483648 is no delay at all. Only whole
  numbers of milliseconds are modelled.
\<close>

definition setTimeout_delay :: "int \<Rightarrow> nat" where
  "setTimeout_delay t =
     (let u = t mod 4294967296;
          s = (if u < 2147483648 then u else u - 4294967296)
      in nat s)"

text \<open>
  \<^verbatim>\<open>receive(timeoutMs)\<close> at time \<open>now\<close>. The argument is \<open>None\<close> when
  \<^verbatim>\<open>typeof timeoutMs === 'number'\<close> is false. The result is the returned promise.
\<close>

definition mailbox_receive :: "int option \<Rightarrow> nat \<Rightarrow> 'm mailbox \<Rightarrow> nat \<times> 'm mailbox" where
  "mailbox_receive timeoutMs now e =
     (let p = fresh e in
      case messageQueue e of
        m # q \<Rightarrow>
          (p, e\<lparr>messageQueue := q,
                promises := (promises e)(p \<mapsto> Resolved (Some m)),
                fresh := Suc p\<rparr>)
      | [] \<Rightarrow>
          (p, e\<lparr>pendingReceivers := pendingReceivers e @ [p],
                promises := (promises e)(p \<mapsto> Pending),
                timers := (case timeoutMs of None \<Rightarrow> timers e
                           | Some t \<Rightarrow> (timers e)(p \<mapsto> now + setTimeout_delay t)),
                fresh := Suc p\<rparr>))"

text \<open>\<^verbatim>\<open>poll()\<close>: \<^verbatim>\<open>return messageQueue.shift()\<close>; \<open>None\<close> is \<^verbatim>\<open>undefined\<close>.\<close>

definition mailbox_poll :: "'m mailbox \<Rightarrow> 'm option \<times> 'm mailbox" where
  "mailbox_poll e =
     (case messageQueue e of
        [] \<Rightarrow> (None, e)
      | m # q \<Rightarrow> (Some m, e\<lparr>messageQueue := q\<rparr>))"

text \<open>
  The \<^verbatim>\<open>message\<close> listener registered by \<^verbatim>\<open>start\<close> (lines 222-230) and by
  \<^verbatim>\<open>workerBootstrap\<close> (lines 132-141):
  \<^verbatim>\<open>if (pendingReceivers.length > 0) {
    const resolver = pendingReceivers.shift(); if (resolver) resolver(message)
  } else { messageQueue.push(message) }\<close>
\<close>

definition mailbox_route :: "'m \<Rightarrow> 'm mailbox \<Rightarrow> 'm mailbox" where
  "mailbox_route msg e =
     (case pendingReceivers e of
        r # rs \<Rightarrow> resolver r msg (e\<lparr>pendingReceivers := rs\<rparr>)
      | [] \<Rightarrow> e\<lparr>messageQueue := messageQueue e @ [msg]\<rparr>)"

text \<open>
  The runtime runs the timer of call \<open>p\<close> at time \<open>now\<close>: nothing happens when the
  timer is not armed (never set, cleared, or run already) or not yet due; this is the
  contract of \<^verbatim>\<open>setTimeout\<close> and \<^verbatim>\<open>clearTimeout\<close>, which the code relies on.
\<close>

definition mailbox_timeout :: "nat \<Rightarrow> nat \<Rightarrow> 'm mailbox \<Rightarrow> 'm mailbox" where
  "mailbox_timeout p now e =
     (case timers e p of
        None \<Rightarrow> e
      | Some d \<Rightarrow>
          if now < d then e
          else timer_callback p (e\<lparr>timers := (timers e)(p := None)\<rparr>))"

text \<open>The invariant of section 3 of the specification.\<close>

definition one_sided :: "'m mailbox \<Rightarrow> bool" where
  "one_sided e = (messageQueue e = [] \<or> pendingReceivers e = [])"

section \<open>The channel: initiating side, Worker object and worker side\<close>

text \<open>
  Messages are opaque to the code; \<open>'m\<close> is the type of everything posted in either
  direction, the \<^verbatim>\<open>data\<close> of \<^verbatim>\<open>start\<close> included.

  \<open>Error text\<close> is a thrown \<^verbatim>\<open>new Error(text)\<close>, or an exception of a runtime function.
\<close>

datatype error = Error string

text \<open>
  A \<^verbatim>\<open>message\<close> listener is either the routing listener (registered once by \<^verbatim>\<open>start\<close>
  on the Worker object, and once by \<^verbatim>\<open>workerBootstrap\<close> on \<^verbatim>\<open>self\<close>) or the \<^verbatim>\<open>handler\<close>
  closure of a call of \<^verbatim>\<open>subscribe\<close>, named by a number as the resolvers are.
\<close>

datatype listener = Router | Handler nat

text \<open>
  The Worker object together with the execution context behind it: the listeners added
  on the Worker object by the initiating side, the messages posted in each direction and
  not yet dispatched, and the worker's own state (the listeners on \<^verbatim>\<open>self\<close> and the
  mailbox of \<^verbatim>\<open>workerBootstrap\<close>). \<open>loaded\<close> says that the worker's script was fetched
  and run; \<open>closed\<close> that the worker called \<^verbatim>\<open>close()\<close>.
\<close>

record 'm worker_object =
  listeners :: "listener list"
  inbox :: "'m list"
  outbox :: "'m list"
  loaded :: bool
  self_listeners :: "listener list"
  inner :: "'m mailbox"
  next_self_handler :: nat
  closed :: bool

text \<open>
  The variables of one call of \<^verbatim>\<open>addWorker\<close>: \<^verbatim>\<open>worker\<close> (\<open>None\<close> is \<^verbatim>\<open>null\<close>),
  the initiating side's mailbox, whether \<^verbatim>\<open>workerUrl\<close> has been revoked, the counter
  naming \<^verbatim>\<open>handler\<close> closures, the number of \<^verbatim>\<open>new Worker\<close> calls made, and the clock.
\<close>

record 'm channel =
  worker :: "'m worker_object option"
  box :: "'m mailbox"
  url_revoked :: bool
  next_handler :: nat
  spawned :: nat
  clock :: nat

definition new_channel :: "'m channel" where
  "new_channel =
     \<lparr>worker = None, box = empty_mailbox, url_revoked = False, next_handler = 0,
      spawned = 0, clock = 0\<rparr>"

text \<open>
  \<^verbatim>\<open>workerBootstrap\<close> (lines 82-146), run by the worker's script: it registers the routing
  listener on \<^verbatim>\<open>self\<close> and calls \<^verbatim>\<open>receive()\<close> once, without argument; \<^verbatim>\<open>workerFn\<close>
  is called in the \<^verbatim>\<open>then\<close> of the promise that call returns. The runtime holds the
  messages posted to a worker until its script has run, so the model runs the bootstrap
  when the Worker object is made.
\<close>

definition workerBootstrap :: "nat \<Rightarrow> 'm worker_object" where
  "workerBootstrap now =
     \<lparr>listeners = [], inbox = [], outbox = [], loaded = True,
      self_listeners = [Router],
      inner = snd (mailbox_receive None now empty_mailbox),
      next_self_handler = 0, closed = False\<rparr>"

definition boot_promise :: nat where
  "boot_promise = 0"

text \<open>
  \<^verbatim>\<open>receive().then((data) => { workerFn({ ..., data }) })\<close>: the user's worker logic has
  been called, with the value shown, exactly when the bootstrap's promise is resolved.
\<close>

definition workerFn_called :: "'m worker_object \<Rightarrow> 'm option option" where
  "workerFn_called c =
     (case promises (inner c) boot_promise of
        Some (Resolved v) \<Rightarrow> Some v
      | _ \<Rightarrow> None)"

text \<open>
  \<^verbatim>\<open>new Worker(workerUrl)\<close>. The script of a worker made from a revoked object URL
  cannot be fetched: the Worker object exists, its script never runs.
\<close>

definition new_Worker :: "bool \<Rightarrow> nat \<Rightarrow> 'm worker_object" where
  "new_Worker revoked now =
     (if revoked
      then \<lparr>listeners = [], inbox = [], outbox = [], loaded = False,
            self_listeners = [], inner = empty_mailbox,
            next_self_handler = 0, closed = False\<rparr>
      else workerBootstrap now)"

subsection \<open>The initiating side (lines 153-233)\<close>

definition send :: "'m \<Rightarrow> 'm channel \<Rightarrow> 'm channel" where
  "send message w =
     (case worker w of
        None \<Rightarrow> w
      | Some c \<Rightarrow> w\<lparr>worker := Some (c\<lparr>inbox := inbox c @ [message]\<rparr>)\<rparr>)"

definition receive :: "int option \<Rightarrow> 'm channel \<Rightarrow> nat \<times> 'm channel" where
  "receive timeoutMs w =
     (let (p, e) = mailbox_receive timeoutMs (clock w) (box w) in (p, w\<lparr>box := e\<rparr>))"

definition poll :: "'m channel \<Rightarrow> 'm option \<times> 'm channel" where
  "poll w = (let (r, e) = mailbox_poll (box w) in (r, w\<lparr>box := e\<rparr>))"

text \<open>
  \<^verbatim>\<open>subscribe(callback)\<close>: the result names the \<^verbatim>\<open>handler\<close> closure, which the returned
  action captures. The callback is the caller's code; its calls are reported by
  \<open>dispatch\<close> below.
\<close>

definition subscribe :: "'m channel \<Rightarrow> error + nat \<times> 'm channel" where
  "subscribe w =
     (case worker w of
        None \<Rightarrow> Inl (Error ''Run Not Called'')
      | Some c \<Rightarrow>
          Inr (next_handler w,
               w\<lparr>worker := Some (c\<lparr>listeners := listeners c @ [Handler (next_handler w)]\<rparr>),
                 next_handler := Suc (next_handler w)\<rparr>))"

text \<open>The action returned by \<^verbatim>\<open>subscribe\<close> (lines 201-205), for handler \<open>h\<close>.\<close>

definition unsubscribe :: "nat \<Rightarrow> 'm channel \<Rightarrow> error + 'm channel" where
  "unsubscribe h w =
     (case worker w of
        None \<Rightarrow> Inl (Error ''Run Not Called; How did you even get this far?'')
      | Some c \<Rightarrow>
          Inr (w\<lparr>worker := Some (c\<lparr>listeners := remove1 (Handler h) (listeners c)\<rparr>)\<rparr>))"

text \<open>
  \<^verbatim>\<open>stop()\<close>: \<^verbatim>\<open>worker.terminate()\<close> destroys the context, so the model drops it with
  the reference.
\<close>

definition stop :: "'m channel \<Rightarrow> error + 'm channel" where
  "stop w =
     (case worker w of
        None \<Rightarrow> Inl (Error ''Run Not Called'')
      | Some c \<Rightarrow>
          Inr (w\<lparr>worker := None,
                 box := (box w)\<lparr>messageQueue := [], pendingReceivers := []\<rparr>,
                 url_revoked := True\<rparr>))"

definition start :: "'m \<Rightarrow> 'm channel \<Rightarrow> 'm channel" where
  "start data w =
     (case worker w of
        Some c \<Rightarrow> w
      | None \<Rightarrow>
          (let c = new_Worker (url_revoked w) (clock w);
               c = c\<lparr>listeners := listeners c @ [Router]\<rparr>;
               c = c\<lparr>inbox := inbox c @ [data]\<rparr>
           in w\<lparr>worker := Some c, spawned := Suc (spawned w)\<rparr>))"

subsection \<open>The worker side (lines 87-130)\<close>

definition worker_send :: "'m \<Rightarrow> 'm worker_object \<Rightarrow> 'm worker_object" where
  "worker_send message c = c\<lparr>outbox := outbox c @ [message]\<rparr>"

definition worker_receive :: "int option \<Rightarrow> nat \<Rightarrow> 'm worker_object \<Rightarrow> nat \<times> 'm worker_object" where
  "worker_receive timeoutMs now c =
     (let (p, e) = mailbox_receive timeoutMs now (inner c) in (p, c\<lparr>inner := e\<rparr>))"

definition worker_poll :: "'m worker_object \<Rightarrow> 'm option \<times> 'm worker_object" where
  "worker_poll c = (let (r, e) = mailbox_poll (inner c) in (r, c\<lparr>inner := e\<rparr>))"

definition worker_subscribe :: "'m worker_object \<Rightarrow> nat \<times> 'm worker_object" where
  "worker_subscribe c =
     (next_self_handler c,
      c\<lparr>self_listeners := self_listeners c @ [Handler (next_self_handler c)],
        next_self_handler := Suc (next_self_handler c)\<rparr>)"

definition worker_unsubscribe :: "nat \<Rightarrow> 'm worker_object \<Rightarrow> 'm worker_object" where
  "worker_unsubscribe h c = c\<lparr>self_listeners := remove1 (Handler h) (self_listeners c)\<rparr>"

definition worker_stop :: "'m worker_object \<Rightarrow> 'm worker_object" where
  "worker_stop c = c\<lparr>closed := True\<rparr>"


section \<open>Calls, events and runs\<close>

text \<open>
  A call of the initiating side's interface, with its outcome: the thrown error, or the
  returned value and the state after the call. \<^verbatim>\<open>start\<close> and \<^verbatim>\<open>receive\<close> are
  \<^verbatim>\<open>async\<close>; neither has a statement that throws.
\<close>

datatype 'm call =
  Start 'm | Send 'm | Receive "int option" | Poll | Subscribe | Unsubscribe nat | Stop

datatype 'm result = Done | Promise nat | Polled "'m option" | Subscribed nat

fun api :: "'m call \<Rightarrow> 'm channel \<Rightarrow> error + 'm result \<times> 'm channel" where
  "api (Start d) w = Inr (Done, start d w)"
| "api (Send m) w = Inr (Done, send m w)"
| "api (Receive t) w = (let (p, w') = receive t w in Inr (Promise p, w'))"
| "api Poll w = (let (r, w') = poll w in Inr (Polled r, w'))"
| "api Subscribe w =
     (case subscribe w of Inl e \<Rightarrow> Inl e | Inr (h, w') \<Rightarrow> Inr (Subscribed h, w'))"
| "api (Unsubscribe h) w =
     (case unsubscribe h w of Inl e \<Rightarrow> Inl e | Inr w' \<Rightarrow> Inr (Done, w'))"
| "api Stop w = (case stop w of Inl e \<Rightarrow> Inl e | Inr w' \<Rightarrow> Inr (Done, w'))"

text \<open>A call of the interface handed to \<^verbatim>\<open>workerFn\<close>; none of its functions throws.\<close>

datatype 'm worker_call =
  WSend 'm | WReceive "int option" | WPoll | WSubscribe | WUnsubscribe nat | WStop

fun worker_api :: "'m worker_call \<Rightarrow> nat \<Rightarrow> 'm worker_object \<Rightarrow> 'm result \<times> 'm worker_object" where
  "worker_api (WSend m) now c = (Done, worker_send m c)"
| "worker_api (WReceive t) now c = (let (p, c') = worker_receive t now c in (Promise p, c'))"
| "worker_api WPoll now c = (let (r, c') = worker_poll c in (Polled r, c'))"
| "worker_api WSubscribe now c = (let (h, c') = worker_subscribe c in (Subscribed h, c'))"
| "worker_api (WUnsubscribe h) now c = (Done, worker_unsubscribe h c)"
| "worker_api WStop now c = (Done, worker_stop c)"

text \<open>
  The runtime dispatches one \<^verbatim>\<open>message\<close> event to the listeners of its target, in the
  order they were added. The routing listener changes the mailbox; a \<^verbatim>\<open>handler\<close> calls
  the subscriber's callback with the message, which the result lists. What the callback
  itself does is the caller's code and not part of the model.
\<close>

fun dispatch :: "listener list \<Rightarrow> 'm \<Rightarrow> 'm mailbox \<Rightarrow> nat list \<times> 'm mailbox" where
  "dispatch [] m e = ([], e)"
| "dispatch (Router # ls) m e = dispatch ls m (mailbox_route m e)"
| "dispatch (Handler h # ls) m e = (let (hs, e') = dispatch ls m e in (h # hs, e'))"

text \<open>
  What happens to a channel: a call on either side, the dispatch of the oldest message
  in flight in either direction, the runtime running a timer, time passing. What can be
  seen of it: the outcome of a call, a subscriber's callback being called with a message,
  \<^verbatim>\<open>workerFn\<close> being called with its \<^verbatim>\<open>data\<close>.
\<close>

datatype 'm event =
    Call "'m call"
  | WorkerCall "'m worker_call"
  | DeliverToMain
  | DeliverToWorker
  | Timeout nat
  | WorkerTimeout nat
  | Tick nat

datatype 'm obs =
    Raised error
  | Returned "'m result"
  | WorkerReturned "'m result"
  | Callback nat 'm
  | WorkerCallback nat 'm
  | WorkerFn "'m option"

definition deliver_to_main :: "'m channel \<Rightarrow> 'm obs list \<times> 'm channel" where
  "deliver_to_main w =
     (case worker w of
        None \<Rightarrow> ([], w)
      | Some c \<Rightarrow>
          (case outbox c of
             [] \<Rightarrow> ([], w)
           | m # ms \<Rightarrow>
               (let (hs, e) = dispatch (listeners c) m (box w)
                in (map (\<lambda>h. Callback h m) hs,
                    w\<lparr>worker := Some (c\<lparr>outbox := ms\<rparr>), box := e\<rparr>))))"

definition deliver_to_worker :: "'m channel \<Rightarrow> 'm obs list \<times> 'm channel" where
  "deliver_to_worker w =
     (case worker w of
        None \<Rightarrow> ([], w)
      | Some c \<Rightarrow>
          if loaded c \<and> \<not> closed c then
            (case inbox c of
               [] \<Rightarrow> ([], w)
             | m # ms \<Rightarrow>
                 (let (hs, e) = dispatch (self_listeners c) m (inner c);
                      c' = c\<lparr>inbox := ms, inner := e\<rparr>
                  in ((case (workerFn_called c, workerFn_called c') of
                         (None, Some v) \<Rightarrow> [WorkerFn v]
                       | _ \<Rightarrow> [])
                      @ map (\<lambda>h. WorkerCallback h m) hs,
                      w\<lparr>worker := Some c'\<rparr>)))
          else ([], w))"

text \<open>
  The worker's interface is reachable only from \<^verbatim>\<open>workerFn\<close>, so a call on the worker
  side needs \<^verbatim>\<open>workerFn\<close> to have been called. A closed worker gets no more events.
\<close>

fun step :: "'m event \<Rightarrow> 'm channel \<Rightarrow> 'm obs list \<times> 'm channel" where
  "step (Call c) w =
     (case api c w of Inl e \<Rightarrow> ([Raised e], w) | Inr (r, w') \<Rightarrow> ([Returned r], w'))"
| "step (WorkerCall c) w =
     (case worker w of
        None \<Rightarrow> ([], w)
      | Some x \<Rightarrow>
          if loaded x \<and> workerFn_called x \<noteq> None then
            (let (r, x') = worker_api c (clock w) x
             in ([WorkerReturned r], w\<lparr>worker := Some x'\<rparr>))
          else ([], w))"
| "step DeliverToMain w = deliver_to_main w"
| "step DeliverToWorker w = deliver_to_worker w"
| "step (Timeout p) w = ([], w\<lparr>box := mailbox_timeout p (clock w) (box w)\<rparr>)"
| "step (WorkerTimeout p) w =
     (case worker w of
        None \<Rightarrow> ([], w)
      | Some x \<Rightarrow>
          if loaded x \<and> \<not> closed x then
            ([], w\<lparr>worker := Some (x\<lparr>inner := mailbox_timeout p (clock w) (inner x)\<rparr>)\<rparr>)
          else ([], w))"
| "step (Tick n) w = ([], w\<lparr>clock := clock w + n\<rparr>)"

fun run :: "'m event list \<Rightarrow> 'm channel \<Rightarrow> 'm obs list \<times> 'm channel" where
  "run [] w = ([], w)"
| "run (ev # evs) w =
     (let (o1, w1) = step ev w; (o2, w2) = run evs w1 in (o1 @ o2, w2))"

definition is_Start :: "'m event \<Rightarrow> bool" where
  "is_Start ev = (case ev of Call (Start d) \<Rightarrow> True | _ \<Rightarrow> False)"


definition no_start :: "'m event list \<Rightarrow> bool" where
  "no_start evs = list_all (\<lambda>ev. \<not> is_Start ev) evs"

text \<open>
  The initiating side has no Worker object and nothing queued: the state before the
  first \<^verbatim>\<open>start\<close> and the state \<^verbatim>\<open>stop\<close> leaves.
\<close>

definition idle :: "'m channel \<Rightarrow> bool" where
  "idle w = (worker w = None \<and> messageQueue (box w) = [])"

section \<open>The registry key (lines 70-80)\<close>

text \<open>
  \<^verbatim>\<open>let globalKey = "__WebWorker_"
  try { globalKey = "__WebWorker_" + btoa(encodeURIComponent(workerCallback.toString())) }
  catch (e) { globalKey = "__WebWorker_" + Buffer.from(workerCallback.toString()).toString('base64') }\<close>
  The two encoders are functions of the runtime; they are parameters here, each
  returning the encoded text or the exception it throws. The \<^verbatim>\<open>catch\<close> block is not
  itself inside a \<^verbatim>\<open>try\<close>.
\<close>

definition globalKey ::
  "(string \<Rightarrow> error + string) \<Rightarrow> (string \<Rightarrow> error + string) \<Rightarrow> string \<Rightarrow> error + string" where
  "globalKey primary fallback source =
     (case primary source of
        Inr k \<Rightarrow> Inr (''__WebWorker_'' @ k)
      | Inl e \<Rightarrow>
          (case fallback source of
             Inr k \<Rightarrow> Inr (''__WebWorker_'' @ k)
           | Inl e' \<Rightarrow> Inl e'))"

text \<open>
  \<^verbatim>\<open>addWorker\<close> as far as the registry goes: \<open>globalThis\<close> maps keys to the values
  stored under them, \<open>built\<close> is the pair \<^verbatim>\<open>[start, { send, receive, poll, stop, subscribe }]\<close>
  the call builds when it finds nothing under its key. The result is the value returned
  and the registry after the call.
\<close>

definition addWorker ::
  "(string \<Rightarrow> error + string) \<Rightarrow> (string \<Rightarrow> error + string) \<Rightarrow> string \<Rightarrow>
   (string \<Rightarrow> 'a option) \<Rightarrow> 'a \<Rightarrow> error + 'a \<times> (string \<Rightarrow> 'a option)" where
  "addWorker primary fallback source globalThis built =
     (case globalKey primary fallback source of
        Inl e \<Rightarrow> Inl e
      | Inr key \<Rightarrow>
          (case globalThis key of
             Some memo \<Rightarrow> Inr (memo, globalThis)
           | None \<Rightarrow> Inr (built, globalThis(key \<mapsto> built))))"

section \<open>Invariants and derived notions\<close>

text \<open>
  What the arrays and the stores of a mailbox satisfy in every state the code can reach:
  the pending resolvers are distinct and their promises pending; nothing is known of a
  call that has not been made; an armed timer belongs to a pending promise.
\<close>

definition sound :: "'m mailbox \<Rightarrow> bool" where
  "sound e =
     (distinct (pendingReceivers e)
      \<and> (\<forall>p \<in> set (pendingReceivers e). promises e p = Some Pending)
      \<and> (\<forall>p. fresh e \<le> p \<longrightarrow> promises e p = None \<and> timers e p = None)
      \<and> (\<forall>p d. timers e p = Some d \<longrightarrow> promises e p = Some Pending))"

text \<open>
  The routing listener is registered exactly once on the Worker object, and exactly once
  on \<^verbatim>\<open>self\<close> when the worker's script has run.
\<close>

definition good_worker :: "'m worker_object \<Rightarrow> bool" where
  "good_worker c =
     (one_sided (inner c) \<and> sound (inner c)
      \<and> count_list (listeners c) Router = 1
      \<and> (loaded c \<longrightarrow> count_list (self_listeners c) Router = 1))"

definition good :: "'m channel \<Rightarrow> bool" where
  "good w =
     (one_sided (box w) \<and> sound (box w)
      \<and> (case worker w of None \<Rightarrow> True | Some c \<Rightarrow> good_worker c))"

primrec handlers :: "listener list \<Rightarrow> nat list" where
  "handlers [] = []"
| "handlers (l # ls) = (case l of Router \<Rightarrow> handlers ls | Handler h \<Rightarrow> h # handlers ls)"

text \<open>The mailboxes of a channel: the initiating side's, and the worker's if there is one.\<close>

definition mailboxes :: "'m channel \<Rightarrow> 'm mailbox list" where
  "mailboxes w = box w # (case worker w of None \<Rightarrow> [] | Some c \<Rightarrow> [inner c])"

text \<open>The message the next \<open>DeliverToMain\<close> (\<open>DeliverToWorker\<close>) dispatches, if any.\<close>

definition arriving :: "'m channel \<Rightarrow> 'm option" where
  "arriving w =
     (case worker w of
        None \<Rightarrow> None
      | Some c \<Rightarrow> (case outbox c of [] \<Rightarrow> None | m # ms \<Rightarrow> Some m))"

definition worker_arriving :: "'m channel \<Rightarrow> 'm option" where
  "worker_arriving w =
     (case worker w of
        None \<Rightarrow> None
      | Some c \<Rightarrow>
          if loaded c \<and> \<not> closed c
          then (case inbox c of [] \<Rightarrow> None | m # ms \<Rightarrow> Some m) else None)"

text \<open>A subscription is active: its handler is a listener of the current worker.\<close>

definition subscribed :: "nat \<Rightarrow> 'm channel \<Rightarrow> bool" where
  "subscribed h w =
     (case worker w of None \<Rightarrow> False | Some c \<Rightarrow> Handler h \<in> set (listeners c))"

definition worker_subscribed :: "nat \<Rightarrow> 'm channel \<Rightarrow> bool" where
  "worker_subscribed h w =
     (case worker w of None \<Rightarrow> False | Some c \<Rightarrow> Handler h \<in> set (self_listeners c))"

text \<open>
  What an event makes of the initiating side's mailbox (proved below for the states the
  code can reach, where the routing listener is registered once).
\<close>

fun box_after :: "'m event \<Rightarrow> 'm channel \<Rightarrow> 'm mailbox" where
  "box_after (Call (Receive t)) w = snd (mailbox_receive t (clock w) (box w))"
| "box_after (Call Poll) w = snd (mailbox_poll (box w))"
| "box_after (Call Stop) w =
     (case worker w of
        None \<Rightarrow> box w
      | Some c \<Rightarrow> (box w)\<lparr>messageQueue := [], pendingReceivers := []\<rparr>)"
| "box_after DeliverToMain w =
     (case arriving w of None \<Rightarrow> box w | Some m \<Rightarrow> mailbox_route m (box w))"
| "box_after (Timeout p) w = mailbox_timeout p (clock w) (box w)"
| "box_after ev w = box w"

text \<open>
  The life of a \<^verbatim>\<open>receive\<close> call \<open>p\<close> whose timer was set for time \<open>d\<close>: pending with the
  timer armed, or resolved with a message, or resolved with \<^verbatim>\<open>undefined\<close> at a time not
  before \<open>d\<close>; once resolved it is no pending receiver.
\<close>

definition timed :: "nat \<Rightarrow> nat \<Rightarrow> nat \<Rightarrow> 'm mailbox \<Rightarrow> bool" where
  "timed p d now e =
     ((promises e p = Some Pending \<and> timers e p = Some d)
      \<or> (p \<notin> set (pendingReceivers e)
          \<and> ((\<exists>m. promises e p = Some (Resolved (Some m)))
              \<or> (promises e p = Some (Resolved None) \<and> d \<le> now))))"

text \<open>
  The messages dispatched on the Worker object in the course of a run, in the order of
  their arrival. The worker's \<^verbatim>\<open>postMessage\<close> appends to \<open>outbox\<close> and a dispatch
  takes its head, so this is the order in which the worker sent them.
\<close>

definition arrival :: "'m event \<Rightarrow> 'm channel \<Rightarrow> 'm option" where
  "arrival ev w = (case ev of DeliverToMain \<Rightarrow> arriving w | _ \<Rightarrow> None)"

fun arrivals :: "'m event list \<Rightarrow> 'm channel \<Rightarrow> 'm list" where
  "arrivals [] w = []"
| "arrivals (ev # evs) w =
     (case arrival ev w of None \<Rightarrow> [] | Some m \<Rightarrow> [m]) @ arrivals evs (snd (step ev w))"

definition no_stop :: "'m event list \<Rightarrow> bool" where
  "no_stop evs = list_all (\<lambda>ev. ev \<noteq> Call Stop) evs"

text \<open>
  The messages the initiating side passes to \<^verbatim>\<open>send\<close> in the course of a run; the values
  \<^verbatim>\<open>workerFn\<close> was called with; the messages the worker's \<^verbatim>\<open>poll\<close> returned.
\<close>

primrec sent :: "'m event list \<Rightarrow> 'm list" where
  "sent [] = []"
| "sent (ev # evs) = (case ev of Call (Send m) \<Rightarrow> m # sent evs | _ \<Rightarrow> sent evs)"

primrec workerFn_calls :: "'m obs list \<Rightarrow> 'm option list" where
  "workerFn_calls [] = []"
| "workerFn_calls (x # xs) =
     (case x of WorkerFn v \<Rightarrow> v # workerFn_calls xs | _ \<Rightarrow> workerFn_calls xs)"

primrec polled :: "'m obs list \<Rightarrow> 'm list" where
  "polled [] = []"
| "polled (x # xs) =
     (case x of WorkerReturned (Polled (Some m)) \<Rightarrow> m # polled xs | _ \<Rightarrow> polled xs)"

text \<open>
  The worker before and after the first message is dispatched in it. Before: the mailbox
  is as \<^verbatim>\<open>workerBootstrap\<close> left it and the first message in flight is \<open>d\<close>. After: the
  bootstrap's promise holds \<open>d\<close>, and whatever is in flight, queued or held by another
  resolved promise comes from \<open>S\<close>.
\<close>

definition pre_handshake :: "'m \<Rightarrow> 'm set \<Rightarrow> 'm worker_object \<Rightarrow> bool" where
  "pre_handshake d S c =
     (loaded c \<and> \<not> closed c \<and> self_listeners c = [Router]
      \<and> (\<exists>ms. inbox c = d # ms \<and> set ms \<subseteq> S)
      \<and> inner c = snd (mailbox_receive None 0 empty_mailbox))"

definition post_handshake :: "'m \<Rightarrow> 'm set \<Rightarrow> 'm worker_object \<Rightarrow> bool" where
  "post_handshake d S c =
     (loaded c \<and> promises (inner c) boot_promise = Some (Resolved (Some d))
      \<and> 1 \<le> fresh (inner c) \<and> boot_promise \<notin> set (pendingReceivers (inner c))
      \<and> set (inbox c) \<subseteq> S \<and> set (messageQueue (inner c)) \<subseteq> S
      \<and> (\<forall>p m. p \<noteq> boot_promise \<and> promises (inner c) p = Some (Resolved (Some m)) \<longrightarrow> m \<in> S)
      \<and> count_list (self_listeners c) Router = 1)"

definition consumed :: "'m \<Rightarrow> 'm set \<Rightarrow> 'm mailbox \<Rightarrow> bool" where
  "consumed d S e =
     (promises e boot_promise = Some (Resolved (Some d))
      \<and> 1 \<le> fresh e \<and> boot_promise \<notin> set (pendingReceivers e)
      \<and> set (messageQueue e) \<subseteq> S
      \<and> (\<forall>p m. p \<noteq> boot_promise \<and> promises e p = Some (Resolved (Some m)) \<longrightarrow> m \<in> S))"

text \<open>A worker whose script was never run.\<close>

definition never_loaded :: "'m worker_object \<Rightarrow> bool" where
  "never_loaded c = (\<not> loaded c \<and> inner c = empty_mailbox)"

section \<open>Properties of the mailbox\<close>

lemma resolve_fields [simp]:
  "messageQueue (resolve p v e) = messageQueue e"
  "pendingReceivers (resolve p v e) = pendingReceivers e"
  "timers (resolve p v e) = timers e"
  "fresh (resolve p v e) = fresh e"
  by (simp_all add: resolve_def)

lemma one_sided_resolve [simp]: "one_sided (resolve p v e) = one_sided e"
  by (simp add: one_sided_def)

lemma one_sided_receive: "one_sided e \<Longrightarrow> one_sided (snd (mailbox_receive t now e))"
  by (auto simp: mailbox_receive_def one_sided_def Let_def split: list.splits)

lemma one_sided_poll: "one_sided e \<Longrightarrow> one_sided (snd (mailbox_poll e))"
  by (auto simp: mailbox_poll_def one_sided_def split: list.splits)

lemma one_sided_route: "one_sided e \<Longrightarrow> one_sided (mailbox_route m e)"
  by (auto simp: mailbox_route_def resolver_def one_sided_def split: list.splits)

lemma one_sided_timeout: "one_sided e \<Longrightarrow> one_sided (mailbox_timeout p now e)"
  by (auto simp: mailbox_timeout_def timer_callback_def one_sided_def split: option.splits)



lemma timeout_queue [simp]: "messageQueue (mailbox_timeout p now e) = messageQueue e"
  by (simp add: mailbox_timeout_def timer_callback_def split: option.splits)

section \<open>Runs\<close>

lemma snd_run_Cons: "snd (run (ev # evs) w) = snd (run evs (snd (step ev w)))"
  by (simp add: split_def Let_def)

lemma fst_run_Cons:
  "fst (run (ev # evs) w) = fst (step ev w) @ fst (run evs (snd (step ev w)))"
  by (simp add: split_def Let_def)

section \<open>The initiating side without a worker\<close>

lemma idle_api:
  assumes "idle w" "\<forall>d. c \<noteq> Start d" "api c w = Inr (r, w')"
  shows "idle w' \<and> spawned w' = spawned w"
  using assms
  by (cases c)
     (auto simp: idle_def send_def receive_def poll_def subscribe_def unsubscribe_def stop_def
        mailbox_receive_def mailbox_poll_def Let_def split: option.splits list.splits sum.splits)

lemma idle_step:
  assumes "idle w" "\<not> is_Start ev"
  shows "idle (snd (step ev w)) \<and> spawned (snd (step ev w)) = spawned w"
proof (cases ev)
  case (Call c)
  with assms(2) have ns: "\<forall>d. c \<noteq> Start d" by (auto simp: is_Start_def)
  show ?thesis
  proof (cases "api c w")
    case (Inl e)
    with Call assms(1) show ?thesis by simp
  next
    case (Inr rw)
    obtain r w' where rw: "rw = (r, w')" by (cases rw)
    with Inr idle_api[OF assms(1) ns] Call show ?thesis by simp
  qed
qed (use assms(1) in \<open>auto simp: idle_def deliver_to_main_def deliver_to_worker_def\<close>)

lemma idle_run:
  "idle w \<Longrightarrow> no_start evs \<Longrightarrow>
   idle (snd (run evs w)) \<and> spawned (snd (run evs w)) = spawned w"
proof (induction evs arbitrary: w)
  case Nil
  then show ?case by simp
next
  case (Cons ev evs)
  from idle_step[of w ev] Cons.prems
  have 1: "idle (snd (step ev w))" "spawned (snd (step ev w)) = spawned w"
    by (auto simp: no_start_def)
  from Cons.IH[OF 1(1)] Cons.prems 1(2) show ?case
    by (simp add: snd_run_Cons no_start_def del: run.simps)
qed

lemma idle_stop: "stop w = Inr w' \<Longrightarrow> idle w'"
  by (auto simp: stop_def idle_def split: option.splits)

lemma idle_new_channel: "idle new_channel"
  by (simp add: idle_def new_channel_def empty_mailbox_def)

lemma idle_calls:
  assumes "idle w"
  shows "api Subscribe w = Inl (Error ''Run Not Called'')"
    "api Stop w = Inl (Error ''Run Not Called'')"
    "api (Unsubscribe h) w = Inl (Error ''Run Not Called; How did you even get this far?'')"
    "api (Send m) w = Inr (Done, w)"
    "api Poll w = Inr (Polled None, w)"
    "api (Receive t) w = Inr (Promise (fresh (box w)), snd (receive t w))"
    "promises (box (snd (receive t w))) (fresh (box w)) = Some Pending"
    "pendingReceivers (box (snd (receive t w))) = pendingReceivers (box w) @ [fresh (box w)]"
  using assms
  by (simp_all add: idle_def subscribe_def stop_def unsubscribe_def send_def poll_def receive_def
      mailbox_poll_def mailbox_receive_def Let_def)

lemmas channel_defs =
  new_channel_def start_def stop_def send_def receive_def poll_def subscribe_def
  unsubscribe_def new_Worker_def workerBootstrap_def mailbox_receive_def mailbox_poll_def
  empty_mailbox_def is_Start_def no_start_def Let_def

text \<open>
  C4 (as the code has it). After a successful \<^verbatim>\<open>stop()\<close>, and until \<^verbatim>\<open>start\<close> is called
  again, \<^verbatim>\<open>subscribe\<close> and \<^verbatim>\<open>stop\<close> throw \<^verbatim>\<open>Error("Run Not Called")\<close>. The other three do
  not throw: \<^verbatim>\<open>send\<close> returns without doing anything, \<^verbatim>\<open>poll\<close> returns
  \<^verbatim>\<open>undefined\<close>, and \<^verbatim>\<open>receive\<close> returns a promise whose receiver is registered and
  pending.
\<close>

theorem calls_after_stop:
  assumes "stop w = Inr w0" and "no_start evs" and "w' = snd (run evs w0)"
  shows "api Subscribe w' = Inl (Error ''Run Not Called'')
       \<and> api Stop w' = Inl (Error ''Run Not Called'')
       \<and> api (Send m) w' = Inr (Done, w')
       \<and> api Poll w' = Inr (Polled None, w')
       \<and> api (Receive t) w' = Inr (Promise (fresh (box w')), snd (receive t w'))
       \<and> promises (box (snd (receive t w'))) (fresh (box w')) = Some Pending"
proof -
  have "idle w'"
    using idle_run[OF idle_stop[OF assms(1)] assms(2)] assms(3) by simp
  then show ?thesis by (intro conjI idle_calls)
qed

theorem calls_after_stop_witness:
  "stop (start (0::nat) new_channel) = Inr (new_channel\<lparr>url_revoked := True, spawned := 1\<rparr>)
   \<and> no_start [Call (Send (1::nat)), Tick 3]
   \<and> api Subscribe (snd (run [Call (Send (1::nat)), Tick 3]
         (new_channel\<lparr>url_revoked := True, spawned := 1\<rparr>)))
     = Inl (Error ''Run Not Called'')
   \<and> api Stop (snd (run [Call (Send (1::nat)), Tick 3]
         (new_channel\<lparr>url_revoked := True, spawned := 1\<rparr>)))
     = Inl (Error ''Run Not Called'')"
proof -
  have h1: "stop (start (0::nat) new_channel)
            = Inr (new_channel\<lparr>url_revoked := True, spawned := 1\<rparr>)"
    by (simp add: channel_defs)
  have h2: "no_start [Call (Send (1::nat)), Tick 3]"
    by (simp add: is_Start_def no_start_def)
  from calls_after_stop[OF h1 h2 refl, of 7 None] h1 h2 show ?thesis by blast
qed

text \<open>
  C4 (as stated) fails: after \<^verbatim>\<open>start(0); stop()\<close> the calls \<^verbatim>\<open>send(1)\<close>,
  \<^verbatim>\<open>receive(5)\<close> and \<^verbatim>\<open>poll()\<close> all return.
\<close>

theorem calls_after_stop_counterexample:
  "fst (run [Call (Start 0), Call Stop, Call (Send 1), Call (Receive (Some 5)), Call Poll]
         (new_channel :: nat channel))
   = [Returned Done, Returned Done, Returned Done, Returned (Promise 0),
      Returned (Polled None)]"
  by (simp add: channel_defs)

text \<open>
  C5 (as the code has it). Before the first \<^verbatim>\<open>start\<close>, \<^verbatim>\<open>send\<close> returns without doing
  anything and \<^verbatim>\<open>subscribe\<close> throws \<^verbatim>\<open>Error("Run Not Called")\<close>; \<^verbatim>\<open>poll\<close> returns
  \<^verbatim>\<open>undefined\<close> and \<^verbatim>\<open>receive\<close> returns a promise whose receiver is registered and
  pending, neither of them failing.
\<close>

theorem calls_before_start:
  assumes "no_start evs" and "w = snd (run evs new_channel)"
  shows "api (Send m) w = Inr (Done, w)
       \<and> api Subscribe w = Inl (Error ''Run Not Called'')
       \<and> api Poll w = Inr (Polled None, w)
       \<and> api (Receive t) w = Inr (Promise (fresh (box w)), snd (receive t w))
       \<and> promises (box (snd (receive t w))) (fresh (box w)) = Some Pending
       \<and> pendingReceivers (box (snd (receive t w)))
           = pendingReceivers (box w) @ [fresh (box w)]"
proof -
  have "idle w"
    using idle_run[OF idle_new_channel assms(1)] assms(2) by simp
  then show ?thesis by (intro conjI idle_calls)
qed

theorem calls_before_start_witness:
  "no_start [Call (Receive None), Call (Send (2::nat))]
   \<and> api (Send 4) (snd (run [Call (Receive None), Call (Send (2::nat))] new_channel))
     = Inr (Done, snd (run [Call (Receive None), Call (Send (2::nat))] new_channel))
   \<and> api Subscribe (snd (run [Call (Receive None), Call (Send (2::nat))] new_channel))
     = Inl (Error ''Run Not Called'')"
proof -
  have h: "no_start [Call (Receive None), Call (Send (2::nat))]"
    by (simp add: is_Start_def no_start_def)
  from calls_before_start[OF h refl, of 4 None] h show ?thesis by blast
qed

text \<open>
  C5 (as stated) fails: on a channel that was never started, \<^verbatim>\<open>receive()\<close> and
  \<^verbatim>\<open>poll()\<close> return.
\<close>

theorem calls_before_start_counterexample:
  "fst (run [Call (Receive None), Call Poll] (new_channel :: nat channel))
   = [Returned (Promise 0), Returned (Polled None)]"
  by (simp add: channel_defs)


section \<open>Stopping and starting again\<close>

lemma revoked_step: "url_revoked w \<Longrightarrow> url_revoked (snd (step ev w))"
proof (cases ev)
  case (Call c)
  then show "url_revoked w \<Longrightarrow> url_revoked (snd (step ev w))"
    by (cases c)
       (auto simp: start_def send_def receive_def poll_def subscribe_def unsubscribe_def
          stop_def Let_def split_def split: option.splits sum.splits)
qed (auto simp: deliver_to_main_def deliver_to_worker_def split_def Let_def
       split: option.splits list.splits)

lemma revoked_run: "url_revoked w \<Longrightarrow> url_revoked (snd (run evs w))"
proof (induction evs arbitrary: w)
  case Nil
  then show ?case by simp
next
  case (Cons ev evs)
  from Cons.IH[OF revoked_step[OF Cons.prems]] show ?case
    by (simp add: snd_run_Cons del: run.simps)
qed

lemma revoked_stop: "stop w = Inr w' \<Longrightarrow> url_revoked w'"
  by (auto simp: stop_def split: option.splits)

lemma start_idle_revoked:
  assumes "idle w" "url_revoked w"
  shows "worker (start d w) \<noteq> None" "spawned (start d w) = Suc (spawned w)"
    "map_option loaded (worker (start d w)) = Some False"
    "map_option inbox (worker (start d w)) = Some [d]"
  using assms by (simp_all add: idle_def start_def new_Worker_def Let_def)

text \<open>
  C6 (as the code has it). After a successful \<^verbatim>\<open>stop()\<close>, no call other than \<^verbatim>\<open>start\<close>
  and no event of the runtime makes \<^verbatim>\<open>worker\<close> non-null or constructs a Worker. A later
  \<^verbatim>\<open>start(d)\<close> does both: \<^verbatim>\<open>worker\<close> is null, so it constructs a Worker from the object
  URL, sets \<^verbatim>\<open>worker\<close> and posts \<open>d\<close> to it.
\<close>

theorem stopped_until_start:
  assumes "stop w = Inr w0" and "no_start evs" and "w' = snd (run evs w0)"
  shows "worker w' = None \<and> spawned w' = spawned w0
       \<and> worker (start d w') \<noteq> None
       \<and> spawned (start d w') = Suc (spawned w0)
       \<and> map_option inbox (worker (start d w')) = Some [d]"
proof -
  have i: "idle w'" and s: "spawned w' = spawned w0"
    using idle_run[OF idle_stop[OF assms(1)] assms(2)] assms(3) by simp_all
  have r: "url_revoked w'"
    using revoked_run[OF revoked_stop[OF assms(1)]] assms(3) by simp
  from i have "worker w' = None" by (simp add: idle_def)
  with s start_idle_revoked[OF i r, of d] show ?thesis by simp
qed

theorem stopped_until_start_witness:
  "no_start [Call (Send (1::nat)), Call Poll]
   \<and> worker (snd (run [Call (Send (1::nat)), Call Poll]
        (new_channel\<lparr>url_revoked := True, spawned := 1\<rparr>))) = None
   \<and> spawned (start 5 (snd (run [Call (Send (1::nat)), Call Poll]
        (new_channel\<lparr>url_revoked := True, spawned := 1\<rparr>)))) = 2"
proof -
  have h1: "stop (start (0::nat) new_channel)
            = Inr (new_channel\<lparr>url_revoked := True, spawned := 1\<rparr>)"
    by (simp add: channel_defs)
  have h2: "no_start [Call (Send (1::nat)), Call Poll]"
    by (simp add: is_Start_def no_start_def)
  from stopped_until_start[OF h1 h2 refl, of 5] h2 show ?thesis by simp
qed

text \<open>
  C6 (as stated) fails: \<^verbatim>\<open>start(0); stop(); start(1)\<close> constructs a second Worker and
  leaves \<^verbatim>\<open>worker\<close> non-null, so that \<^verbatim>\<open>subscribe\<close> and \<^verbatim>\<open>stop\<close> succeed again.
\<close>

theorem stopped_until_start_counterexample:
  "spawned (snd (run [Call (Start 0), Call Stop, Call (Start 1)] (new_channel :: nat channel))) = 2
   \<and> worker (snd (run [Call (Start 0), Call Stop, Call (Start 1)] (new_channel :: nat channel)))
       \<noteq> None
   \<and> fst (run [Call (Start 0), Call Stop, Call (Start 1), Call Subscribe, Call Stop]
         (new_channel :: nat channel))
     = [Returned Done, Returned Done, Returned Done, Returned (Subscribed 0), Returned Done]"
  by (simp add: channel_defs)

section \<open>Unsubscribing\<close>

text \<open>
  C9 (as the code has it). The action returned by \<^verbatim>\<open>subscribe\<close> does not throw while the
  Worker object is there. Invoked after \<^verbatim>\<open>stop()\<close>, and before any later \<^verbatim>\<open>start\<close>, it
  throws \<^verbatim>\<open>Error("Run Not Called; How did you even get this far?")\<close>.
\<close>

theorem unsubscribe_after_stop:
  assumes "subscribe w = Inr (h, w1)" and "stop (snd (run evs1 w1)) = Inr w3"
    and "no_start evs2"
  shows "\<not> isl (unsubscribe h w1)
       \<and> api (Unsubscribe h) (snd (run evs2 w3))
         = Inl (Error ''Run Not Called; How did you even get this far?'')"
proof -
  from assms(1) have "worker w1 \<noteq> None"
    by (auto simp: subscribe_def split: option.splits)
  then have a: "\<not> isl (unsubscribe h w1)"
    by (auto simp: unsubscribe_def split: option.splits)
  have "idle (snd (run evs2 w3))"
    using idle_run[OF idle_stop[OF assms(2)] assms(3)] by simp
  from a idle_calls(3)[OF this] show ?thesis by simp
qed

theorem unsubscribe_after_stop_witness:
  "no_start [Call (Send (1::nat))]
   \<and> api (Unsubscribe 0) (snd (run [Call (Send (1::nat))]
        (new_channel\<lparr>url_revoked := True, spawned := 1, next_handler := 1\<rparr>)))
     = Inl (Error ''Run Not Called; How did you even get this far?'')"
proof -
  have h1: "subscribe (start (0::nat) new_channel)
            = Inr (0, snd (projr (subscribe (start (0::nat) new_channel))))"
    by (simp add: channel_defs)
  have h2: "stop (snd (run [Tick 2] (snd (projr (subscribe (start (0::nat) new_channel))))))
            = Inr (new_channel\<lparr>url_revoked := True, spawned := 1, next_handler := 1,
                     clock := 2\<rparr>)"
    by (simp add: channel_defs)
  have h3: "no_start [Call (Send (1::nat))]"
    by (simp add: is_Start_def no_start_def)
  from unsubscribe_after_stop[OF h1 h2 h3] h3 show ?thesis
    by (simp add: channel_defs)
qed

text \<open>
  C9 (as stated) fails: after \<^verbatim>\<open>start(0)\<close>, \<^verbatim>\<open>subscribe\<close> and \<^verbatim>\<open>stop()\<close>, the
  returned action throws.
\<close>

theorem unsubscribe_after_stop_counterexample:
  "fst (run [Call (Start 0), Call Subscribe, Call Stop, Call (Unsubscribe 0)]
         (new_channel :: nat channel))
   = [Returned Done, Returned (Subscribed 0), Returned Done,
      Raised (Error ''Run Not Called; How did you even get this far?'')]"
  by (simp add: channel_defs)

section \<open>The registry key\<close>

text \<open>
  C10 (as the code has it). When the primary encoding throws, the key is built from the
  fallback encoding and the call goes on to the registry. When the fallback encoding
  throws as well, its exception leaves \<^verbatim>\<open>addWorker\<close>: the call is aborted and nothing is
  stored.
\<close>

theorem fingerprint_fallback:
  assumes "primary source = Inl e"
  shows "(fallback source = Inr k \<longrightarrow>
            globalKey primary fallback source = Inr (''__WebWorker_'' @ k)
          \<and> \<not> isl (addWorker primary fallback source globalThis built))
       \<and> (fallback source = Inl e' \<longrightarrow>
            addWorker primary fallback source globalThis built = Inl e')"
  using assms by (simp add: globalKey_def addWorker_def split: option.splits)

theorem fingerprint_fallback_witness:
  "globalKey (\<lambda>s. Inl (Error ''URIError'')) (\<lambda>s. Inr ''Zg=='') ''f''
     = Inr ''__WebWorker_Zg==''
   \<and> addWorker (\<lambda>s. Inl (Error ''URIError'')) (\<lambda>s. Inl (Error ''ReferenceError'')) ''f''
       (\<lambda>k. None) (0::nat)
     = Inl (Error ''ReferenceError'')"
  using fingerprint_fallback[of "\<lambda>s. Inl (Error ''URIError'')" "''f''" "Error ''URIError''"
      "\<lambda>s. Inr ''Zg==''" "''Zg==''" "\<lambda>k. None" "0::nat" "Error ''X''"]
    fingerprint_fallback[of "\<lambda>s. Inl (Error ''URIError'')" "''f''" "Error ''URIError''"
      "\<lambda>s. Inl (Error ''ReferenceError'')" "''Zg==''" "\<lambda>k. None" "0::nat"
      "Error ''ReferenceError''"]
  by simp

text \<open>
  C10 (as stated) fails: with both encoders throwing, the call does not complete.
\<close>

theorem fingerprint_fallback_counterexample:
  "addWorker (\<lambda>s. Inl (Error ''URIError'')) (\<lambda>s. Inl (Error ''ReferenceError'')) ''f''
     (\<lambda>k. None) (0::nat)
   = Inl (Error ''ReferenceError'')"
  by (simp add: globalKey_def addWorker_def)

section \<open>The invariants hold in every reachable state\<close>

lemma sound_empty: "sound empty_mailbox"
  by (simp add: sound_def empty_mailbox_def)

lemma sound_receive: "sound e \<Longrightarrow> sound (snd (mailbox_receive t now e))"
  unfolding sound_def mailbox_receive_def Let_def
  by (cases "messageQueue e"; cases t) (auto simp: less_Suc_eq_le Suc_le_eq)

lemma sound_poll: "sound e \<Longrightarrow> sound (snd (mailbox_poll e))"
  by (auto simp: mailbox_poll_def sound_def split: list.splits)

lemma sound_route: "sound e \<Longrightarrow> sound (mailbox_route m e)"
  unfolding sound_def mailbox_route_def resolver_def resolve_def
  by (cases "pendingReceivers e") auto

lemma sound_timeout: "sound e \<Longrightarrow> sound (mailbox_timeout p now e)"
  unfolding sound_def mailbox_timeout_def timer_callback_def resolve_def
  by (cases "timers e p") (auto dest: notin_set_remove1)

lemma sound_reset: "sound e \<Longrightarrow> sound (e\<lparr>messageQueue := [], pendingReceivers := []\<rparr>)"
  by (simp add: sound_def)

lemma dispatch_fst: "fst (dispatch ls m e) = handlers ls"
  by (induction ls m e rule: dispatch.induct) (auto simp: split_def Let_def)

lemma dispatch_snd: "snd (dispatch ls m e) = (mailbox_route m ^^ count_list ls Router) e"
  by (induction ls m e rule: dispatch.induct) (auto simp: split_def Let_def funpow_swap1)

lemma dispatch_once:
  "count_list ls Router = 1 \<Longrightarrow> dispatch ls m e = (handlers ls, mailbox_route m e)"
  using dispatch_fst[of ls m e] dispatch_snd[of ls m e] by (simp add: prod_eq_iff)

lemma count_remove1_Handler [simp]:
  "count_list (remove1 (Handler h) ls) Router = count_list ls Router"
  by (induction ls) auto

lemma good_new_channel: "good new_channel"
  by (simp add: good_def new_channel_def one_sided_def sound_empty) (simp add: empty_mailbox_def)

lemma good_new_Worker:
  "one_sided (inner (new_Worker r now :: 'm worker_object))"
  "sound (inner (new_Worker r now :: 'm worker_object))"
  "listeners (new_Worker r now :: 'm worker_object) = []"
  "loaded (new_Worker r now :: 'm worker_object) \<Longrightarrow>
     count_list (self_listeners (new_Worker r now :: 'm worker_object)) Router = 1"
  by (auto simp: new_Worker_def workerBootstrap_def sound_def
        one_sided_def mailbox_receive_def empty_mailbox_def Let_def split: if_splits)

lemma good_api:
  assumes "good w" "api c w = Inr (r, w')"
  shows "good w'"
proof (cases c)
  case (Start d)
  with assms show ?thesis
    by (auto simp: good_def good_worker_def start_def Let_def good_new_Worker split: option.splits)
next
  case (Send m)
  with assms show ?thesis by (auto simp: good_def good_worker_def send_def split: option.splits)
next
  case (Receive t)
  with assms one_sided_receive[of "box w" t "clock w"] sound_receive[of "box w" t "clock w"]
  show ?thesis by (auto simp: good_def receive_def split_def Let_def)
next
  case Poll
  with assms one_sided_poll[of "box w"] sound_poll[of "box w"]
  show ?thesis by (auto simp: good_def poll_def split_def Let_def)
next
  case Subscribe
  with assms show ?thesis
    by (auto simp: good_def good_worker_def subscribe_def split: option.splits)
next
  case (Unsubscribe h)
  with assms show ?thesis
    by (auto simp: good_def good_worker_def unsubscribe_def split: option.splits)
next
  case Stop
  with assms sound_reset[of "box w"] show ?thesis
    by (auto simp: good_def stop_def one_sided_def split: option.splits)
qed

lemma good_worker_api:
  assumes "good_worker c"
  shows "good_worker (snd (worker_api k now c))"
proof (cases k)
  case (WReceive t)
  with assms one_sided_receive[of "inner c" t now] sound_receive[of "inner c" t now]
  show ?thesis by (auto simp: good_worker_def worker_receive_def split_def Let_def)
next
  case WPoll
  with assms one_sided_poll[of "inner c"] sound_poll[of "inner c"]
  show ?thesis by (auto simp: good_worker_def worker_poll_def split_def Let_def)
qed (use assms in \<open>auto simp: good_worker_def worker_send_def worker_subscribe_def
       worker_unsubscribe_def worker_stop_def\<close>)

lemma good_step:
  assumes "good w"
  shows "good (snd (step ev w))"
proof (cases ev)
  case (Call c)
  show ?thesis
  proof (cases "api c w")
    case (Inl e)
    with Call assms show ?thesis by simp
  next
    case (Inr rw)
    with Call good_api[OF assms, of c "fst rw" "snd rw"] show ?thesis by (simp add: split_def)
  qed
next
  case (WorkerCall k)
  with assms good_worker_api show ?thesis
    by (auto simp: good_def split_def Let_def split: option.splits)
next
  case DeliverToMain
  with assms one_sided_route sound_route show ?thesis
    by (auto simp: good_def good_worker_def deliver_to_main_def dispatch_once
          split: option.splits list.splits)
next
  case DeliverToWorker
  with assms one_sided_route sound_route show ?thesis
    by (auto simp: good_def good_worker_def deliver_to_worker_def dispatch_once Let_def
          split: option.splits list.splits)
next
  case (Timeout p)
  with assms one_sided_timeout sound_timeout show ?thesis
    by (auto simp: good_def split: option.splits)
next
  case (WorkerTimeout p)
  with assms one_sided_timeout sound_timeout show ?thesis
    by (auto simp: good_def good_worker_def split: option.splits)
next
  case (Tick n)
  with assms show ?thesis by (auto simp: good_def split: option.splits)
qed

lemma good_run: "good w \<Longrightarrow> good (snd (run evs w))"
proof (induction evs arbitrary: w)
  case Nil
  then show ?case by simp
next
  case (Cons ev evs)
  from Cons.IH[OF good_step[OF Cons.prems]] show ?case
    by (simp add: snd_run_Cons del: run.simps)
qed


lemma route_pending:
  assumes "sound e" "pendingReceivers e = r # rs"
  shows "pendingReceivers (mailbox_route m e) = rs"
    "promises (mailbox_route m e) r = Some (Resolved (Some m))"
    "messageQueue (mailbox_route m e) = messageQueue e"
    "r \<notin> set rs"
  using assms by (auto simp: sound_def mailbox_route_def resolver_def resolve_def)

lemma route_no_pending:
  assumes "pendingReceivers e = []"
  shows "messageQueue (mailbox_route m e) = messageQueue e @ [m]"
    "pendingReceivers (mailbox_route m e) = []"
    "promises (mailbox_route m e) = promises e"
  using assms by (auto simp: mailbox_route_def)

lemma receive_queued:
  assumes "messageQueue e = m # q"
  shows "messageQueue (snd (mailbox_receive t now e)) = q"
    "promises (snd (mailbox_receive t now e)) (fst (mailbox_receive t now e))
       = Some (Resolved (Some m))"
    "pendingReceivers (snd (mailbox_receive t now e)) = pendingReceivers e"
  using assms by (auto simp: mailbox_receive_def Let_def)

lemma receive_empty:
  assumes "messageQueue e = []"
  shows "messageQueue (snd (mailbox_receive t now e)) = []"
    "promises (snd (mailbox_receive t now e)) (fst (mailbox_receive t now e)) = Some Pending"
    "pendingReceivers (snd (mailbox_receive t now e))
       = pendingReceivers e @ [fst (mailbox_receive t now e)]"
    "fst (mailbox_receive t now e) = fresh e"
  using assms by (auto simp: mailbox_receive_def Let_def)

lemma good_mailboxes:
  "good w \<Longrightarrow> e \<in> set (mailboxes w) \<Longrightarrow> one_sided e \<and> sound e"
  by (auto simp: good_def good_worker_def mailboxes_def split: option.splits)

text \<open>
  C2. In every state a channel can reach from its creation, by any calls on either side,
  message arrivals, timers running and time passing, each mailbox (the initiating side's
  and the worker's) has its queue empty or its list of pending receivers empty. There, an
  arriving message resolves the oldest pending receiver if there is one (leaving the
  queue empty) and is appended to the queue otherwise; a new \<^verbatim>\<open>receive\<close> takes the oldest
  queued message if there is one and registers a pending receiver otherwise.
\<close>

theorem queue_or_receivers:
  assumes "e \<in> set (mailboxes (snd (run evs new_channel)))"
  shows "one_sided e
    \<and> (\<forall>r rs. pendingReceivers e = r # rs \<longrightarrow>
          pendingReceivers (mailbox_route m e) = rs
        \<and> promises (mailbox_route m e) r = Some (Resolved (Some m))
        \<and> messageQueue (mailbox_route m e) = [])
    \<and> (pendingReceivers e = [] \<longrightarrow>
          messageQueue (mailbox_route m e) = messageQueue e @ [m]
        \<and> pendingReceivers (mailbox_route m e) = [])
    \<and> (\<forall>m' q. messageQueue e = m' # q \<longrightarrow>
          messageQueue (snd (mailbox_receive t now e)) = q
        \<and> promises (snd (mailbox_receive t now e)) (fst (mailbox_receive t now e))
            = Some (Resolved (Some m'))
        \<and> pendingReceivers (snd (mailbox_receive t now e)) = [])
    \<and> (messageQueue e = [] \<longrightarrow>
          pendingReceivers (snd (mailbox_receive t now e))
            = pendingReceivers e @ [fst (mailbox_receive t now e)]
        \<and> promises (snd (mailbox_receive t now e)) (fst (mailbox_receive t now e))
            = Some Pending
        \<and> messageQueue (snd (mailbox_receive t now e)) = [])"
proof -
  from good_mailboxes[OF good_run[OF good_new_channel] assms]
  have os: "one_sided e" and so: "sound e" by simp_all
  have 1: "pendingReceivers e = r # rs \<Longrightarrow>
          pendingReceivers (mailbox_route m e) = rs
        \<and> promises (mailbox_route m e) r = Some (Resolved (Some m))
        \<and> messageQueue (mailbox_route m e) = []" for r rs
    using route_pending[OF so] os by (auto simp: one_sided_def)
  have 2: "messageQueue e = m' # q \<Longrightarrow>
          messageQueue (snd (mailbox_receive t now e)) = q
        \<and> promises (snd (mailbox_receive t now e)) (fst (mailbox_receive t now e))
            = Some (Resolved (Some m'))
        \<and> pendingReceivers (snd (mailbox_receive t now e)) = []" for m' q
    using receive_queued[of e] os by (auto simp: one_sided_def)
  from os 1 2 show ?thesis
    by (simp add: route_no_pending receive_empty(1-3))
qed


theorem queue_or_receivers_witness:
  "one_sided (box (snd (run [Call (Start (0::nat)), Call (Receive None)] new_channel)))
   \<and> pendingReceivers
        (mailbox_route 7 (box (snd (run [Call (Start (0::nat)), Call (Receive None)] new_channel))))
     = []
   \<and> promises
        (mailbox_route 7 (box (snd (run [Call (Start (0::nat)), Call (Receive None)] new_channel))))
        0
     = Some (Resolved (Some 7))"
proof -
  have mem: "box (snd (run [Call (Start (0::nat)), Call (Receive None)] new_channel))
             \<in> set (mailboxes (snd (run [Call (Start (0::nat)), Call (Receive None)] new_channel)))"
    by (simp add: mailboxes_def)
  have pr: "pendingReceivers
              (box (snd (run [Call (Start (0::nat)), Call (Receive None)] new_channel))) = [0]"
    by (simp add: channel_defs)
  from queue_or_receivers[OF mem, of 7] pr show ?thesis by simp
qed

section \<open>Subscriptions\<close>

lemma handlers_mem: "h \<in> set (handlers ls) \<longleftrightarrow> Handler h \<in> set ls"
  by (induction ls) (auto split: listener.splits)

lemma deliver_to_main_good:
  assumes "good w" "worker w = Some c" "outbox c = m # ms"
  shows "deliver_to_main w =
           (map (\<lambda>h. Callback h m) (handlers (listeners c)),
            w\<lparr>worker := Some (c\<lparr>outbox := ms\<rparr>), box := mailbox_route m (box w)\<rparr>)"
  using assms by (simp add: deliver_to_main_def good_def good_worker_def dispatch_once)

lemma deliver_to_worker_good:
  assumes "good w" "worker w = Some c" "loaded c" "\<not> closed c" "inbox c = m # ms"
  shows "snd (deliver_to_worker w) =
           w\<lparr>worker := Some (c\<lparr>inbox := ms, inner := mailbox_route m (inner c)\<rparr>)\<rparr>"
    "set (map (\<lambda>h. WorkerCallback h m) (handlers (self_listeners c)))
       \<subseteq> set (fst (deliver_to_worker w))"
  using assms
  by (simp_all add: deliver_to_worker_def good_def good_worker_def dispatch_once Let_def)

lemma subscribed_step:
  assumes "subscribed h w" "ev \<noteq> Call (Unsubscribe h)" "ev \<noteq> Call Stop"
  shows "subscribed h (snd (step ev w))"
proof (cases ev)
  case (Call c)
  with assms show ?thesis
    by (cases c)
       (auto simp: subscribed_def start_def send_def receive_def poll_def subscribe_def
          unsubscribe_def split_def Let_def split: option.splits)
next
  case (WorkerCall k)
  with assms show ?thesis
    by (cases k)
       (auto simp: subscribed_def worker_send_def worker_receive_def worker_poll_def
          worker_subscribe_def worker_unsubscribe_def worker_stop_def split_def Let_def
          split: option.splits)
qed (use assms in \<open>auto simp: subscribed_def deliver_to_main_def deliver_to_worker_def
       split_def Let_def split: option.splits list.splits\<close>)

text \<open>
  C8. In every reachable state: \<^verbatim>\<open>subscribe\<close> makes its handler a listener of the worker;
  it stays one over every event but its own unsubscribe action and \<^verbatim>\<open>stop\<close>; and when
  a message \<open>m\<close> is dispatched while the handler is a listener, the callback is called
  with \<open>m\<close> and the mailbox is exactly what the routing listener makes of it: the
  message still goes to the oldest pending receiver or to the queue, whatever \<^verbatim>\<open>poll\<close> and
  \<^verbatim>\<open>receive\<close> did before, and the subscription takes nothing from either. The same holds
  inside the worker for the listeners on \<^verbatim>\<open>self\<close>.
\<close>

theorem subscribers_and_mailbox:
  assumes "w = snd (run evs new_channel)"
  shows "(subscribe w = Inr (h', w1) \<longrightarrow> subscribed h' w1)
    \<and> (subscribed h w \<and> ev \<noteq> Call (Unsubscribe h) \<and> ev \<noteq> Call Stop \<longrightarrow>
         subscribed h (snd (step ev w)))
    \<and> (subscribed h w \<and> arriving w = Some m \<longrightarrow>
         Callback h m \<in> set (fst (step DeliverToMain w))
       \<and> box (snd (step DeliverToMain w)) = mailbox_route m (box w))
    \<and> (worker_subscribed h w \<and> worker_arriving w = Some m \<longrightarrow>
         WorkerCallback h m \<in> set (fst (step DeliverToWorker w))
       \<and> map_option inner (worker (snd (step DeliverToWorker w)))
           = map_option (\<lambda>c. mailbox_route m (inner c)) (worker w))"
proof -
  have g: "good w" using assms good_run[OF good_new_channel] by simp
  have 1: "subscribe w = Inr (h', w1) \<longrightarrow> subscribed h' w1"
    by (auto simp: subscribe_def subscribed_def split: option.splits)
  have 2: "subscribed h w \<and> ev \<noteq> Call (Unsubscribe h) \<and> ev \<noteq> Call Stop \<longrightarrow>
         subscribed h (snd (step ev w))"
    using subscribed_step by blast
  have 3: "subscribed h w \<and> arriving w = Some m \<longrightarrow>
         Callback h m \<in> set (fst (step DeliverToMain w))
       \<and> box (snd (step DeliverToMain w)) = mailbox_route m (box w)"
  proof (intro impI, elim conjE)
    assume s: "subscribed h w" and a: "arriving w = Some m"
    from s obtain c where c: "worker w = Some c" "Handler h \<in> set (listeners c)"
      by (auto simp: subscribed_def split: option.splits)
    from a c obtain ms where "outbox c = m # ms"
      by (auto simp: arriving_def split: list.splits)
    from deliver_to_main_good[OF g c(1) this] c(2)
    show "Callback h m \<in> set (fst (step DeliverToMain w))
       \<and> box (snd (step DeliverToMain w)) = mailbox_route m (box w)"
      by (simp add: handlers_mem)
  qed
  have 4: "worker_subscribed h w \<and> worker_arriving w = Some m \<longrightarrow>
         WorkerCallback h m \<in> set (fst (step DeliverToWorker w))
       \<and> map_option inner (worker (snd (step DeliverToWorker w)))
           = map_option (\<lambda>c. mailbox_route m (inner c)) (worker w)"
  proof (intro impI, elim conjE)
    assume s: "worker_subscribed h w" and a: "worker_arriving w = Some m"
    from s obtain c where c: "worker w = Some c" "Handler h \<in> set (self_listeners c)"
      by (auto simp: worker_subscribed_def split: option.splits)
    from a c have lc: "loaded c" "\<not> closed c"
      by (auto simp: worker_arriving_def split: if_splits)
    from a c lc obtain ms where "inbox c = m # ms"
      by (auto simp: worker_arriving_def split: list.splits)
    from deliver_to_worker_good[OF g c(1) lc this] c
    show "WorkerCallback h m \<in> set (fst (step DeliverToWorker w))
       \<and> map_option inner (worker (snd (step DeliverToWorker w)))
           = map_option (\<lambda>c. mailbox_route m (inner c)) (worker w)"
      by (auto simp: handlers_mem)
  qed
  from 1 2 3 4 show ?thesis by blast
qed


lemmas worker_defs =
  deliver_to_main_def deliver_to_worker_def workerFn_called_def boot_promise_def
  mailbox_route_def resolver_def resolve_def mailbox_timeout_def timer_callback_def
  worker_send_def worker_receive_def worker_poll_def worker_subscribe_def
  worker_unsubscribe_def worker_stop_def arriving_def worker_arriving_def
  subscribed_def worker_subscribed_def

theorem subscribers_and_mailbox_witness:
  "subscribed 0 (snd (run [Call (Start (0::nat)), Call Subscribe, DeliverToWorker,
        WorkerCall (WSend 3), Call (Receive None)] new_channel))
   \<and> arriving (snd (run [Call (Start (0::nat)), Call Subscribe, DeliverToWorker,
        WorkerCall (WSend 3), Call (Receive None)] new_channel)) = Some 3
   \<and> Callback 0 3 \<in> set (fst (step DeliverToMain
        (snd (run [Call (Start (0::nat)), Call Subscribe, DeliverToWorker,
           WorkerCall (WSend 3), Call (Receive None)] new_channel))))
   \<and> box (snd (step DeliverToMain
        (snd (run [Call (Start (0::nat)), Call Subscribe, DeliverToWorker,
           WorkerCall (WSend 3), Call (Receive None)] new_channel))))
     = mailbox_route 3 (box (snd (run [Call (Start (0::nat)), Call Subscribe, DeliverToWorker,
           WorkerCall (WSend 3), Call (Receive None)] new_channel)))"
proof -
  let ?w = "snd (run [Call (Start (0::nat)), Call Subscribe, DeliverToWorker,
        WorkerCall (WSend 3), Call (Receive None)] new_channel)"
  have s: "subscribed 0 ?w" by (simp add: channel_defs worker_defs)
  have a: "arriving ?w = Some 3" by (simp add: channel_defs worker_defs)
  from subscribers_and_mailbox[OF refl, of "[Call (Start (0::nat)), Call Subscribe,
      DeliverToWorker, WorkerCall (WSend 3), Call (Receive None)]" 0 _ 0 "Tick 0" 3] s a
  show ?thesis by blast
qed

section \<open>Timeouts\<close>

lemma box_step: "good w \<Longrightarrow> box (snd (step ev w)) = box_after ev w"
proof (cases ev)
  case (Call c)
  then show "good w \<Longrightarrow> box (snd (step ev w)) = box_after ev w"
    by (cases c)
       (auto simp: start_def send_def receive_def poll_def subscribe_def unsubscribe_def
          stop_def split_def Let_def split: option.splits)
next
  case DeliverToMain
  then show "good w \<Longrightarrow> box (snd (step ev w)) = box_after ev w"
    by (auto simp: arriving_def deliver_to_main_def good_def good_worker_def dispatch_once
          split: option.splits list.splits)
qed (auto simp: deliver_to_worker_def split_def Let_def split: option.splits list.splits)

lemma clock_step: "clock w \<le> clock (snd (step ev w))"
proof (cases ev)
  case (Call c)
  then show ?thesis
    by (cases c)
       (auto simp: start_def send_def receive_def poll_def subscribe_def unsubscribe_def
          stop_def split_def Let_def split: option.splits)
qed (auto simp: deliver_to_main_def deliver_to_worker_def split_def Let_def
       split: option.splits list.splits)

lemma clock_run: "clock w \<le> clock (snd (run evs w))"
proof (induction evs arbitrary: w)
  case Nil
  then show ?case by simp
next
  case (Cons ev evs)
  from Cons.IH[of "snd (step ev w)"] clock_step[of w ev] show ?case
    by (simp add: snd_run_Cons del: run.simps)
qed

lemma timed_later: "timed p d now e \<Longrightarrow> now \<le> now' \<Longrightarrow> timed p d now' e"
  by (auto simp: timed_def)

lemma timed_receive:
  "sound e \<Longrightarrow> timed p d now e \<Longrightarrow> timed p d now (snd (mailbox_receive t now' e))"
  unfolding sound_def timed_def mailbox_receive_def Let_def
  by (cases "messageQueue e"; cases t) (auto simp: not_less_eq_eq)

lemma timed_poll: "timed p d now e \<Longrightarrow> timed p d now (snd (mailbox_poll e))"
  by (auto simp: mailbox_poll_def timed_def split: list.splits)

lemma timed_route: "sound e \<Longrightarrow> timed p d now e \<Longrightarrow> timed p d now (mailbox_route m e)"
  unfolding sound_def timed_def mailbox_route_def resolver_def resolve_def
  by (cases "pendingReceivers e") auto

lemma timed_timeout:
  "sound e \<Longrightarrow> timed p d now e \<Longrightarrow> timed p d now (mailbox_timeout q now e)"
  unfolding sound_def timed_def mailbox_timeout_def timer_callback_def resolve_def
  by (cases "timers e q") (auto dest: notin_set_remove1)

lemma timed_reset:
  "timed p d now e \<Longrightarrow> timed p d now (e\<lparr>messageQueue := [], pendingReceivers := []\<rparr>)"
  by (auto simp: timed_def)

lemma timed_box_after:
  assumes "sound (box w)" "timed p d (clock w) (box w)"
  shows "timed p d (clock w) (box_after ev w)"
  using assms
  by (induction ev w rule: box_after.induct)
     (auto simp: timed_receive timed_poll timed_route timed_timeout timed_reset
        split: option.splits)

lemma timed_step:
  assumes "good w" "timed p d (clock w) (box w)"
  shows "timed p d (clock (snd (step ev w))) (box (snd (step ev w)))"
proof -
  from assms(1) have "sound (box w)" by (simp add: good_def)
  from timed_box_after[OF this assms(2)] box_step[OF assms(1)]
  have "timed p d (clock w) (box (snd (step ev w)))" by simp
  from timed_later[OF this clock_step] show ?thesis .
qed

lemma timed_run:
  "good w \<Longrightarrow> timed p d (clock w) (box w) \<Longrightarrow>
   timed p d (clock (snd (run evs w))) (box (snd (run evs w)))"
proof (induction evs arbitrary: w)
  case Nil
  then show ?case by simp
next
  case (Cons ev evs)
  from Cons.IH[OF good_step[OF Cons.prems(1)] timed_step[OF Cons.prems]] show ?case
    by (simp add: snd_run_Cons del: run.simps)
qed


lemma resolved_step:
  assumes "good w" "promises (box w) p = Some (Resolved v)"
  shows "promises (box (snd (step ev w))) p = Some (Resolved v)"
proof -
  from assms(1) have so: "sound (box w)" by (simp add: good_def)
  have "promises (box_after ev w) p = Some (Resolved v)"
    using so assms(2)
    by (induction ev w rule: box_after.induct)
       (auto simp: sound_def mailbox_receive_def mailbox_poll_def mailbox_route_def
          resolver_def resolve_def mailbox_timeout_def timer_callback_def Let_def
          split: option.splits list.splits)
  with box_step[OF assms(1)] show ?thesis by simp
qed

lemma resolved_stays:
  "good w \<Longrightarrow> promises (box w) p = Some (Resolved v) \<Longrightarrow>
   promises (box (snd (run evs w))) p = Some (Resolved v)"
proof (induction evs arbitrary: w)
  case Nil
  then show ?case by simp
next
  case (Cons ev evs)
  from Cons.IH[OF good_step[OF Cons.prems(1)] resolved_step[OF Cons.prems]]
  show ?case by (simp add: snd_run_Cons del: run.simps)
qed

lemma timed_registered:
  assumes "sound e" "messageQueue e = []" "mailbox_receive (Some t) now e = (p, e')"
  shows "timed p (now + setTimeout_delay t) now e'" "p \<in> set (pendingReceivers e')"
    "promises e' p = Some Pending"
  using assms by (auto simp: timed_def mailbox_receive_def Let_def)

lemma timed_fire:
  assumes "sound e" "timed p d now e" "promises e p = Some Pending"
  shows "now < d \<Longrightarrow> mailbox_timeout p now e = e"
    "d \<le> now \<Longrightarrow> promises (mailbox_timeout p now e) p = Some (Resolved None)"
    "d \<le> now \<Longrightarrow> p \<notin> set (pendingReceivers (mailbox_timeout p now e))"
  using assms
  by (auto simp: timed_def sound_def mailbox_timeout_def timer_callback_def resolve_def)

lemma timed_done:
  assumes "timed p d now e" "promises e p = Some (Resolved None)"
  shows "d \<le> now" "p \<notin> set (pendingReceivers e)"
  using assms by (auto simp: timed_def)

lemma setTimeout_delay_ge: "t < 2147483648 \<Longrightarrow> nat t \<le> setTimeout_delay t"
  by (cases "0 \<le> t") (auto simp: setTimeout_delay_def Let_def)

lemma setTimeout_delay_eq: "0 \<le> t \<Longrightarrow> t < 2147483648 \<Longrightarrow> setTimeout_delay t = nat t"
  by (simp add: setTimeout_delay_def Let_def)

text \<open>
  C7 (as the code has it). Let \<^verbatim>\<open>receive(t)\<close> be called at time \<open>clock w0\<close> with the
  queue empty, in any reachable state; \<open>p\<close> is the promise it returns. The receiver is
  registered and the promise pending. For \<open>t\<close> up to 2147483647, whatever happens next,
  the promise is never resolved with \<^verbatim>\<open>undefined\<close> before \<open>t\<close> milliseconds have passed,
  the timer does nothing when run earlier, and (for \<open>t\<close> not negative) it resolves the
  promise with \<^verbatim>\<open>undefined\<close> when run after that time with the promise still pending.
  For every \<open>t\<close>: when the timer's callback runs on the pending promise (no message was
  routed to it), the promise is resolved with \<^verbatim>\<open>undefined\<close> and the receiver is removed
  from \<^verbatim>\<open>pendingReceivers\<close>; whatever arrives later, the promise keeps that value and
  the receiver never is pending again. Time is the model's clock, and a timer runs no
  earlier than the delay the runtime took.
\<close>

theorem receive_timeout:
  assumes "w0 = snd (run evs0 new_channel)"
    and "messageQueue (box w0) = []"
    and "receive (Some t) w0 = (p, w1)"
    and "w2 = snd (run evs1 w1)"
    and "w3 = snd (step (Timeout p) w2)"
    and "w4 = snd (run evs2 w3)"
  shows "p \<in> set (pendingReceivers (box w1)) \<and> promises (box w1) p = Some Pending
    \<and> (t < 2147483648 \<and> promises (box w2) p = Some (Resolved None) \<longrightarrow>
          clock w0 + nat t \<le> clock w2)
    \<and> (t < 2147483648 \<and> promises (box w2) p = Some Pending \<and> clock w2 < clock w0 + nat t \<longrightarrow>
          w3 = w2)
    \<and> (0 \<le> t \<and> t < 2147483648 \<and> promises (box w2) p = Some Pending
        \<and> clock w0 + nat t \<le> clock w2 \<longrightarrow>
          promises (box w3) p = Some (Resolved None))
    \<and> (promises (box w2) p = Some Pending \<and> promises (box w3) p \<noteq> Some Pending \<longrightarrow>
          promises (box w3) p = Some (Resolved None)
        \<and> p \<notin> set (pendingReceivers (box w3))
        \<and> promises (box w4) p = Some (Resolved None)
        \<and> p \<notin> set (pendingReceivers (box w4)))"
proof -
  let ?d = "clock w0 + setTimeout_delay t"
  have g0: "good w0" using assms(1) good_run[OF good_new_channel] by simp
  then have so0: "sound (box w0)" by (simp add: good_def)
  from assms(3) have r: "mailbox_receive (Some t) (clock w0) (box w0) = (p, box w1)"
    and c1: "clock w1 = clock w0"
    by (auto simp: receive_def split_def Let_def)
  have w1: "w1 = snd (step (Call (Receive (Some t))) w0)"
    using assms(3) by (simp add: split_def)
  have g1: "good w1" unfolding w1 by (rule good_step[OF g0])
  note reg = timed_registered[OF so0 assms(2) r]
  have t1: "timed p ?d (clock w1) (box w1)" using reg(1) c1 by simp
  have g2: "good w2" unfolding assms(4) by (rule good_run[OF g1])
  have t2: "timed p ?d (clock w2) (box w2)" unfolding assms(4) by (rule timed_run[OF g1 t1])
  have so2: "sound (box w2)" using g2 by (simp add: good_def)
  have g3: "good w3" unfolding assms(5) by (rule good_step[OF g2])
  have t3: "timed p ?d (clock w3) (box w3)" unfolding assms(5) by (rule timed_step[OF g2 t2])
  have t4: "timed p ?d (clock w4) (box w4)" unfolding assms(6) by (rule timed_run[OF g3 t3])
  have fired: "promises (box w3) p = Some (Resolved None)
        \<and> p \<notin> set (pendingReceivers (box w3))
        \<and> promises (box w4) p = Some (Resolved None)
        \<and> p \<notin> set (pendingReceivers (box w4))"
    if pe: "promises (box w2) p = Some Pending" and le: "?d \<le> clock w2"
  proof -
    have p3: "promises (box w3) p = Some (Resolved None)"
      using timed_fire(2)[OF so2 t2 pe le] assms(5) by simp
    have n3: "p \<notin> set (pendingReceivers (box w3))"
      using timed_fire(3)[OF so2 t2 pe le] assms(5) by simp
    have p4: "promises (box w4) p = Some (Resolved None)"
      unfolding assms(6) by (rule resolved_stays[OF g3 p3])
    from p3 n3 p4 timed_done(2)[OF t4 p4] show ?thesis by simp
  qed
  have early: "w3 = w2" if pe: "promises (box w2) p = Some Pending" and lt: "clock w2 < ?d"
    using timed_fire(1)[OF so2 t2 pe lt] assms(5) by simp
  have a: "t < 2147483648 \<and> promises (box w2) p = Some (Resolved None) \<longrightarrow>
          clock w0 + nat t \<le> clock w2"
    using timed_done(1)[OF t2] setTimeout_delay_ge[of t] by auto
  have b: "t < 2147483648 \<and> promises (box w2) p = Some Pending \<and> clock w2 < clock w0 + nat t \<longrightarrow>
          w3 = w2"
    using early setTimeout_delay_ge[of t] by auto
  have c: "0 \<le> t \<and> t < 2147483648 \<and> promises (box w2) p = Some Pending
        \<and> clock w0 + nat t \<le> clock w2 \<longrightarrow>
          promises (box w3) p = Some (Resolved None)"
    using fired setTimeout_delay_eq[of t] by auto
  have d: "promises (box w2) p = Some Pending \<and> promises (box w3) p \<noteq> Some Pending \<longrightarrow>
          promises (box w3) p = Some (Resolved None)
        \<and> p \<notin> set (pendingReceivers (box w3))
        \<and> promises (box w4) p = Some (Resolved None)
        \<and> p \<notin> set (pendingReceivers (box w4))"
  proof (intro impI, elim conjE)
    assume pe: "promises (box w2) p = Some Pending"
      and np: "promises (box w3) p \<noteq> Some Pending"
    have "?d \<le> clock w2"
    proof (rule ccontr)
      assume "\<not> ?d \<le> clock w2"
      then have "w3 = w2" using early[OF pe] by simp
      with pe np show False by simp
    qed
    from fired[OF pe this]
    show "promises (box w3) p = Some (Resolved None)
        \<and> p \<notin> set (pendingReceivers (box w3))
        \<and> promises (box w4) p = Some (Resolved None)
        \<and> p \<notin> set (pendingReceivers (box w4))" .
  qed
  from reg(2,3) a b c d show ?thesis by blast
qed

theorem receive_timeout_witness:
  "promises (box (snd (run [DeliverToWorker, WorkerCall (WSend 9), DeliverToMain]
      (snd (step (Timeout 0)
        (snd (run [Tick 5]
          (snd (receive (Some 5) (snd (run [Call (Start (0::nat))] new_channel)))))))))))
     0 = Some (Resolved None)
   \<and> messageQueue (box (snd (run [DeliverToWorker, WorkerCall (WSend 9), DeliverToMain]
      (snd (step (Timeout 0)
        (snd (run [Tick 5]
          (snd (receive (Some 5) (snd (run [Call (Start (0::nat))] new_channel)))))))))))
     = [9]"
proof -
  let ?w0 = "snd (run [Call (Start (0::nat))] new_channel)"
  let ?w1 = "snd (receive (Some 5) ?w0)"
  let ?w2 = "snd (run [Tick 5] ?w1)"
  let ?w3 = "snd (step (Timeout 0) ?w2)"
  have h2: "messageQueue (box ?w0) = []" by (simp add: channel_defs)
  have h3: "receive (Some 5) ?w0 = (0, ?w1)" by (simp add: channel_defs)
  have pe: "promises (box ?w2) 0 = Some Pending" by (simp add: channel_defs)
  have cl: "clock ?w0 + nat 5 \<le> clock ?w2" by (simp add: channel_defs)
  have bd: "(0::int) \<le> 5" "(5::int) < 2147483648" by simp_all
  have q: "messageQueue (box (snd (run [DeliverToWorker, WorkerCall (WSend 9), DeliverToMain]
      ?w3))) = [9]"
    by (simp add: channel_defs worker_defs setTimeout_delay_def)
  note th = receive_timeout[OF refl h2 h3 refl refl refl,
      of "[Tick 5]" "[DeliverToWorker, WorkerCall (WSend 9), DeliverToMain]"]
  from th pe cl bd have p3: "promises (box ?w3) 0 = Some (Resolved None)" by blast
  then have "promises (box ?w3) 0 \<noteq> Some Pending" by simp
  with th pe q show ?thesis by blast
qed

text \<open>
  C7 (as stated) fails: \<^verbatim>\<open>receive(2147483648)\<close> on a started channel with nothing queued
  is resolved with \<^verbatim>\<open>undefined\<close> by its timer one millisecond after the call.
\<close>

theorem receive_timeout_counterexample:
  "promises (box (snd (run
      [Call (Start 0), Call (Receive (Some 2147483648)), Tick 1, Timeout 0]
      (new_channel :: nat channel)))) 0
     = Some (Resolved None)
   \<and> clock (snd (run
      [Call (Start 0), Call (Receive (Some 2147483648)), Tick 1, Timeout 0]
      (new_channel :: nat channel)))
     = 1"
  by (simp add: channel_defs worker_defs setTimeout_delay_def)

section \<open>Pending receivers are served in order\<close>

text \<open>An event that brings no message leaves the first pending receivers in place.\<close>

lemma waiting_step:
  assumes "one_sided e" "sound e" "pendingReceivers e = ps @ rest" "ps \<noteq> []"
    "\<forall>p \<in> set ps. timers e p = None" "arrival ev w = None" "ev \<noteq> Call Stop" "box w = e"
  shows "\<exists>rest'. pendingReceivers (box_after ev w) = ps @ rest'"
    "\<forall>p \<in> set ps. timers (box_after ev w) p = None"
proof -
  have q: "messageQueue e = []" using assms(1,3,4) by (auto simp: one_sided_def)
  have fr: "\<forall>p \<in> set ps. p < fresh e"
    using assms(2,3) by (fastforce simp: sound_def not_le[symmetric])
  have rm: "timers e q \<noteq> None \<Longrightarrow> remove1 q (ps @ rest) = ps @ remove1 q rest" for q
    using assms(5) by (auto simp: remove1_append)
  show "\<exists>rest'. pendingReceivers (box_after ev w) = ps @ rest'"
    using assms(3,6,7,8) q rm
    by (induction ev w rule: box_after.induct)
       (auto simp: arrival_def mailbox_receive_def mailbox_poll_def mailbox_timeout_def
          timer_callback_def Let_def split: option.splits)
  show "\<forall>p \<in> set ps. timers (box_after ev w) p = None"
    using assms(5,6,7,8) q fr
    by (induction ev w rule: box_after.induct)
       (auto simp: arrival_def mailbox_receive_def mailbox_poll_def mailbox_timeout_def
          timer_callback_def Let_def split: option.splits)
qed

lemma arriving_step:
  assumes "sound e" "pendingReceivers e = (r # ps) @ rest"
    "\<forall>p \<in> set (r # ps). timers e p = None" "arrival ev w = Some m" "box w = e"
  shows "pendingReceivers (box_after ev w) = ps @ rest"
    "\<forall>p \<in> set ps. timers (box_after ev w) p = None"
    "promises (box_after ev w) r = Some (Resolved (Some m))"
proof -
  from assms(4) have ev: "ev = DeliverToMain" "arriving w = Some m"
    by (auto simp: arrival_def split: event.splits)
  then have b: "box_after ev w = mailbox_route m e" using assms(5) by simp
  from assms(2) have pr: "pendingReceivers e = r # (ps @ rest)" by simp
  show "pendingReceivers (box_after ev w) = ps @ rest"
    "promises (box_after ev w) r = Some (Resolved (Some m))"
    unfolding b using route_pending[OF assms(1) pr] by simp_all
  show "\<forall>p \<in> set ps. timers (box_after ev w) p = None"
    unfolding b using assms(3) pr by (auto simp: mailbox_route_def resolver_def)
qed

lemma fifo_run:
  "good w \<Longrightarrow> pendingReceivers (box w) = ps @ rest \<Longrightarrow>
   \<forall>p \<in> set ps. timers (box w) p = None \<Longrightarrow> no_stop evs \<Longrightarrow>
   k < length ps \<Longrightarrow> k < length (arrivals evs w) \<Longrightarrow>
   promises (box (snd (run evs w))) (ps ! k) = Some (Resolved (Some (arrivals evs w ! k)))"
proof (induction evs arbitrary: w ps rest k)
  case Nil
  then show ?case by simp
next
  case (Cons ev evs)
  let ?w = "snd (step ev w)"
  have g: "good ?w" by (rule good_step[OF Cons.prems(1)])
  have os: "one_sided (box w)" and so: "sound (box w)"
    using Cons.prems(1) by (simp_all add: good_def)
  have b: "box ?w = box_after ev w" by (rule box_step[OF Cons.prems(1)])
  have ns: "ev \<noteq> Call Stop" "no_stop evs" using Cons.prems(4) by (simp_all add: no_stop_def)
  have ne: "ps \<noteq> []" using Cons.prems(5) by auto
  show ?case
  proof (cases "arrival ev w")
    case None
    from waiting_step[OF os so Cons.prems(2) ne Cons.prems(3) None ns(1) refl]
    obtain rest' where 1: "pendingReceivers (box ?w) = ps @ rest'"
      and 2: "\<forall>p \<in> set ps. timers (box ?w) p = None"
      unfolding b by blast
    from Cons.prems(6) None have 3: "k < length (arrivals evs ?w)" by simp
    from Cons.IH[OF g 1 2 ns(2) Cons.prems(5) 3] None show ?thesis
      by (simp add: snd_run_Cons del: run.simps)
  next
    case (Some m)
    from ne obtain r ps' where ps: "ps = r # ps'" by (cases ps) auto
    note st = arriving_step[OF so Cons.prems(2)[unfolded ps] Cons.prems(3)[unfolded ps] Some refl]
    show ?thesis
    proof (cases k)
      case 0
      from resolved_stays[OF g, of r "Some m" evs] st(3) b
      have "promises (box (snd (run evs ?w))) r = Some (Resolved (Some m))" by simp
      with 0 ps Some show ?thesis by (simp add: snd_run_Cons del: run.simps)
    next
      case (Suc k')
      have 1: "pendingReceivers (box ?w) = ps' @ rest" using st(1) b by simp
      have 2: "\<forall>p \<in> set ps'. timers (box ?w) p = None" using st(2) b by simp
      have 3: "k' < length ps'" using Cons.prems(5) ps Suc by simp
      have 4: "k' < length (arrivals evs ?w)" using Cons.prems(6) Some Suc by simp
      from Cons.IH[OF g 1 2 ns(2) 3 4] Suc ps Some show ?thesis
        by (simp add: snd_run_Cons del: run.simps)
    qed
  qed
qed


lemma receive_None_step:
  assumes "messageQueue (box w) = []"
  shows "fst (step (Call (Receive None)) w) = [Returned (Promise (fresh (box w)))]"
    "pendingReceivers (box (snd (step (Call (Receive None)) w)))
       = pendingReceivers (box w) @ [fresh (box w)]"
    "timers (box (snd (step (Call (Receive None)) w))) = timers (box w)"
    "messageQueue (box (snd (step (Call (Receive None)) w))) = []"
    "fresh (box (snd (step (Call (Receive None)) w))) = Suc (fresh (box w))"
  using assms by (simp_all add: receive_def mailbox_receive_def Let_def)

lemma receives_run:
  "messageQueue (box w) = [] \<Longrightarrow>
   fst (run (replicate n (Call (Receive None))) w)
     = map (\<lambda>i. Returned (Promise (fresh (box w) + i))) [0..<n]
   \<and> pendingReceivers (box (snd (run (replicate n (Call (Receive None))) w)))
     = pendingReceivers (box w) @ map (\<lambda>i. fresh (box w) + i) [0..<n]
   \<and> timers (box (snd (run (replicate n (Call (Receive None))) w))) = timers (box w)"
proof (induction n arbitrary: w)
  case 0
  then show ?case by simp
next
  case (Suc n)
  note st = receive_None_step[OF Suc.prems]
  from Suc.IH[OF st(4)] st(1,2,3,5) show ?case
    by (simp add: snd_run_Cons fst_run_Cons map_upt_Suc del: run.simps upt_Suc)
qed

text \<open>
  C1. In any reachable state with nothing queued and nobody waiting, let \<^verbatim>\<open>receive()\<close> be
  called \<open>n\<close> times; the calls return the promises numbered from \<open>fresh\<close> on, in this
  order. Then, over every continuation without \<^verbatim>\<open>stop\<close> (calls on both sides, timers,
  later \<^verbatim>\<open>receive\<close> calls, in any order), the \<open>k\<close>-th of these promises is resolved with
  the \<open>k\<close>-th message that arrives, as soon as that many have arrived.
\<close>

theorem receivers_fifo:
  assumes "w0 = snd (run evs0 new_channel)"
    and "messageQueue (box w0) = []" and "pendingReceivers (box w0) = []"
    and "w1 = snd (run (replicate n (Call (Receive None))) w0)"
    and "no_stop evs"
    and "k < n" and "k < length (arrivals evs w1)"
  shows "fst (run (replicate n (Call (Receive None))) w0)
           = map (\<lambda>i. Returned (Promise (fresh (box w0) + i))) [0..<n]
       \<and> promises (box (snd (run evs w1))) (fresh (box w0) + k)
           = Some (Resolved (Some (arrivals evs w1 ! k)))"
proof -
  let ?ps = "map (\<lambda>i. fresh (box w0) + i) [0..<n]"
  have g0: "good w0" using assms(1) good_run[OF good_new_channel] by simp
  have g1: "good w1" unfolding assms(4) by (rule good_run[OF g0])
  from receives_run[OF assms(2), of n] assms(3,4)
  have obs: "fst (run (replicate n (Call (Receive None))) w0)
           = map (\<lambda>i. Returned (Promise (fresh (box w0) + i))) [0..<n]"
    and pe: "pendingReceivers (box w1) = ?ps @ []"
    and ti: "timers (box w1) = timers (box w0)"
    by simp_all
  from g0 have "\<forall>p. fresh (box w0) \<le> p \<longrightarrow> timers (box w0) p = None"
    by (simp add: good_def sound_def)
  with ti have tn: "\<forall>p \<in> set ?ps. timers (box w1) p = None" by auto
  have kl: "k < length ?ps" using assms(6) by simp
  from fifo_run[OF g1 pe tn assms(5) kl assms(7)] assms(6) obs show ?thesis by simp
qed

theorem receivers_fifo_witness:
  "no_stop [WorkerCall (WSend (10::nat)), WorkerCall (WSend 20), DeliverToMain, DeliverToMain]
   \<and> arrivals [WorkerCall (WSend 10), WorkerCall (WSend 20), DeliverToMain, DeliverToMain]
        (snd (run (replicate 2 (Call (Receive None)))
           (snd (run [Call (Start (0::nat)), DeliverToWorker] new_channel))))
      = [10, 20]
   \<and> promises (box (snd (run
          [WorkerCall (WSend 10), WorkerCall (WSend 20), DeliverToMain, DeliverToMain]
          (snd (run (replicate 2 (Call (Receive None)))
             (snd (run [Call (Start (0::nat)), DeliverToWorker] new_channel)))))))
        1
      = Some (Resolved (Some 20))"
proof -
  let ?w0 = "snd (run [Call (Start (0::nat)), DeliverToWorker] new_channel)"
  let ?w1 = "snd (run (replicate 2 (Call (Receive None))) ?w0)"
  let ?evs = "[WorkerCall (WSend (10::nat)), WorkerCall (WSend 20), DeliverToMain, DeliverToMain]"
  have h2: "messageQueue (box ?w0) = []" by (simp add: channel_defs worker_defs)
  have h3: "pendingReceivers (box ?w0) = []" by (simp add: channel_defs worker_defs)
  have h5: "no_stop ?evs" by (simp add: no_stop_def)
  have ar: "arrivals ?evs ?w1 = [10, 20]"
    by (simp add: channel_defs worker_defs arrival_def numeral_2_eq_2)
  have f0: "fresh (box ?w0) = 0" by (simp add: channel_defs worker_defs)
  have h7: "1 < length (arrivals ?evs ?w1)" by (simp only: ar) simp
  have h6: "(1::nat) < 2" by simp
  from receivers_fifo[OF refl h2 h3 refl h5 h6 h7] ar h5 f0
  show ?thesis by simp
qed

section \<open>The handshake\<close>

lemma workerFn_calls_append [simp]:
  "workerFn_calls (xs @ ys) = workerFn_calls xs @ workerFn_calls ys"
  by (induction xs) (auto split: obs.splits)

lemma polled_append [simp]: "polled (xs @ ys) = polled xs @ polled ys"
  by (induction xs) (auto split: obs.splits result.splits option.splits)

lemma workerFn_calls_map [simp]:
  "workerFn_calls (map (\<lambda>h. WorkerCallback h m) hs) = []"
  "workerFn_calls (map (\<lambda>h. Callback h m) hs) = []"
  "polled (map (\<lambda>h. WorkerCallback h m) hs) = []"
  "polled (map (\<lambda>h. Callback h m) hs) = []"
  by (induction hs) auto

lemma pre_not_called: "pre_handshake d S c \<Longrightarrow> workerFn_called c = None"
  by (simp add: pre_handshake_def workerFn_called_def boot_promise_def mailbox_receive_def
      empty_mailbox_def Let_def)

lemma post_called: "post_handshake d S c \<Longrightarrow> workerFn_called c = Some (Some d)"
  by (simp add: post_handshake_def workerFn_called_def)

lemma pre_step:
  assumes "worker w = Some c" "pre_handshake d S c" "ev \<noteq> Call Stop" "ev \<noteq> DeliverToWorker"
  shows "\<exists>c'. worker (snd (step ev w)) = Some c' \<and> pre_handshake d (S \<union> set (sent [ev])) c'"
    "workerFn_calls (fst (step ev w)) = []" "polled (fst (step ev w)) = []"
    "spawned (snd (step ev w)) = spawned w"
proof -
  have nc: "workerFn_called c = None" by (rule pre_not_called[OF assms(2)])
  have "(\<exists>c'. worker (snd (step ev w)) = Some c' \<and> pre_handshake d (S \<union> set (sent [ev])) c')
      \<and> workerFn_calls (fst (step ev w)) = [] \<and> polled (fst (step ev w)) = []
      \<and> spawned (snd (step ev w)) = spawned w"
  proof (cases ev)
    case (Call k)
    with assms show ?thesis
      by (cases k)
         (auto simp: pre_handshake_def start_def send_def receive_def poll_def subscribe_def
            unsubscribe_def split_def Let_def)
  next
    case (WorkerCall k)
    with assms nc show ?thesis by simp
  next
    case DeliverToMain
    with assms show ?thesis
      by (auto simp: pre_handshake_def deliver_to_main_def split_def Let_def split: list.splits)
  next
    case DeliverToWorker
    with assms show ?thesis by simp
  next
    case (Timeout p)
    with assms show ?thesis by (auto simp: pre_handshake_def)
  next
    case (WorkerTimeout p)
    with assms show ?thesis
      by (auto simp: pre_handshake_def mailbox_timeout_def mailbox_receive_def
            empty_mailbox_def Let_def)
  next
    case (Tick n)
    with assms show ?thesis by (auto simp: pre_handshake_def)
  qed
  then show "\<exists>c'. worker (snd (step ev w)) = Some c' \<and> pre_handshake d (S \<union> set (sent [ev])) c'"
    "workerFn_calls (fst (step ev w)) = []" "polled (fst (step ev w)) = []"
    "spawned (snd (step ev w)) = spawned w"
    by blast+
qed

lemma pre_deliver:
  assumes "worker w = Some c" "pre_handshake d S c"
  shows "\<exists>c'. worker (snd (step DeliverToWorker w)) = Some c' \<and> post_handshake d S c'"
    "workerFn_calls (fst (step DeliverToWorker w)) = [Some d]"
    "polled (fst (step DeliverToWorker w)) = []"
    "spawned (snd (step DeliverToWorker w)) = spawned w"
  using assms
  by (auto simp: pre_handshake_def post_handshake_def deliver_to_worker_def
        workerFn_called_def boot_promise_def mailbox_receive_def empty_mailbox_def
        mailbox_route_def resolver_def resolve_def Let_def)


lemma post_alt:
  "post_handshake d S c =
     (loaded c \<and> consumed d S (inner c) \<and> set (inbox c) \<subseteq> S
      \<and> count_list (self_listeners c) Router = 1)"
  by (auto simp: post_handshake_def consumed_def)

lemma consumed_mono: "consumed d S e \<Longrightarrow> S \<subseteq> S' \<Longrightarrow> consumed d S' e"
  by (auto simp: consumed_def)

lemma consumed_receive:
  "consumed d S e \<Longrightarrow> consumed d S (snd (mailbox_receive t now e))"
  unfolding consumed_def mailbox_receive_def Let_def boot_promise_def
  by (cases "messageQueue e"; cases t) auto

lemma consumed_poll:
  "consumed d S e \<Longrightarrow> consumed d S (snd (mailbox_poll e))"
  "consumed d S e \<Longrightarrow> fst (mailbox_poll e) = Some m \<Longrightarrow> m \<in> S"
  by (auto simp: consumed_def mailbox_poll_def split: list.splits)

lemma consumed_route:
  "consumed d S e \<Longrightarrow> m \<in> S \<Longrightarrow> consumed d S (mailbox_route m e)"
  unfolding consumed_def mailbox_route_def resolver_def resolve_def boot_promise_def
  by (cases "pendingReceivers e") auto

lemma consumed_timeout:
  "consumed d S e \<Longrightarrow> consumed d S (mailbox_timeout p now e)"
  unfolding consumed_def mailbox_timeout_def timer_callback_def resolve_def boot_promise_def
  by (cases "timers e p") (auto dest: notin_set_remove1)

lemma post_worker_api:
  assumes "post_handshake d S c"
  shows "post_handshake d S (snd (worker_api k now c))"
    "polled [WorkerReturned (fst (worker_api k now c))] = [m] \<Longrightarrow> m \<in> S"
proof -
  from assms have cs: "consumed d S (inner c)" by (simp add: post_alt)
  show "post_handshake d S (snd (worker_api k now c))"
    using assms consumed_receive[OF cs] consumed_poll(1)[OF cs]
    by (cases k)
       (auto simp: post_alt worker_send_def worker_receive_def worker_poll_def
          worker_subscribe_def worker_unsubscribe_def worker_stop_def split_def Let_def)
  show "polled [WorkerReturned (fst (worker_api k now c))] = [m] \<Longrightarrow> m \<in> S"
    using consumed_poll(2)[OF cs]
    by (cases k)
       (auto simp: worker_receive_def worker_poll_def worker_subscribe_def split_def Let_def
          split: option.splits)
qed

lemma polled_single:
  "set (polled [WorkerReturned r]) \<subseteq> S \<longleftrightarrow> (\<forall>m. polled [WorkerReturned r] = [m] \<longrightarrow> m \<in> S)"
  by (cases r) (auto split: option.splits)

lemma post_step:
  assumes "worker w = Some c" "post_handshake d S c" "ev \<noteq> Call Stop"
  shows "\<exists>c'. worker (snd (step ev w)) = Some c' \<and> post_handshake d (S \<union> set (sent [ev])) c'"
    "workerFn_calls (fst (step ev w)) = []" "set (polled (fst (step ev w))) \<subseteq> S"
    "spawned (snd (step ev w)) = spawned w"
proof -
  have ca: "workerFn_called c = Some (Some d)" by (rule post_called[OF assms(2)])
  from assms(2) have cs: "consumed d S (inner c)" and ld: "loaded c"
    and ib: "set (inbox c) \<subseteq> S" and ro: "count_list (self_listeners c) Router = 1"
    by (simp_all add: post_alt)
  have "(\<exists>c'. worker (snd (step ev w)) = Some c' \<and> post_handshake d (S \<union> set (sent [ev])) c')
      \<and> workerFn_calls (fst (step ev w)) = [] \<and> set (polled (fst (step ev w))) \<subseteq> S
      \<and> spawned (snd (step ev w)) = spawned w"
  proof (cases ev)
    case (Call k)
    have "consumed d (insert x S) (inner c)" for x
      by (rule consumed_mono[OF cs]) auto
    with Call assms show ?thesis
      by (cases k)
         (auto simp: post_alt start_def send_def receive_def poll_def subscribe_def
            unsubscribe_def split_def Let_def)
  next
    case (WorkerCall k)
    from post_worker_api[OF assms(2), of k "clock w"]
    have "post_handshake d S (snd (worker_api k (clock w) c))"
      "set (polled [WorkerReturned (fst (worker_api k (clock w) c))]) \<subseteq> S"
      by (simp_all only: polled_single) blast
    with WorkerCall assms(1) ca ld show ?thesis
      by (simp add: split_def Let_def)
  next
    case DeliverToMain
    with assms show ?thesis
      by (auto simp: post_alt deliver_to_main_def split_def Let_def split: list.splits)
  next
    case DeliverToWorker
    show ?thesis
    proof (cases "\<not> closed c \<and> inbox c \<noteq> []")
      case False
      with DeliverToWorker assms ld show ?thesis
        by (auto simp: deliver_to_worker_def split: list.splits)
    next
      case True
      then obtain m ms where i: "inbox c = m # ms" by (cases "inbox c") auto
      with ib have mS: "m \<in> S" "set ms \<subseteq> S" by auto
      let ?c = "c\<lparr>inbox := ms, inner := mailbox_route m (inner c)\<rparr>"
      have "post_handshake d S ?c"
        using consumed_route[OF cs mS(1)] ld mS(2) ro by (simp add: post_alt)
      moreover from this have "workerFn_called ?c = Some (Some d)" by (rule post_called)
      ultimately show ?thesis
        using DeliverToWorker assms(1) True i ld ro ca
        by (simp add: deliver_to_worker_def dispatch_once Let_def)
    qed
  next
    case (Timeout p)
    with assms show ?thesis by (auto simp: post_alt)
  next
    case (WorkerTimeout p)
    with assms consumed_timeout[OF cs] show ?thesis by (auto simp: post_alt)
  next
    case (Tick n)
    with assms show ?thesis by (auto simp: post_alt)
  qed
  then show "\<exists>c'. worker (snd (step ev w)) = Some c' \<and> post_handshake d (S \<union> set (sent [ev])) c'"
    "workerFn_calls (fst (step ev w)) = []" "set (polled (fst (step ev w))) \<subseteq> S"
    "spawned (snd (step ev w)) = spawned w"
    by blast+
qed


lemma sent_Cons_set: "set (sent (ev # evs)) = set (sent [ev]) \<union> set (sent evs)"
  by (auto split: event.splits call.splits)

lemma post_run:
  "worker w = Some c \<Longrightarrow> post_handshake d S c \<Longrightarrow> no_stop evs \<Longrightarrow>
   (\<exists>c'. worker (snd (run evs w)) = Some c' \<and> post_handshake d (S \<union> set (sent evs)) c')
   \<and> workerFn_calls (fst (run evs w)) = []
   \<and> set (polled (fst (run evs w))) \<subseteq> S \<union> set (sent evs)
   \<and> spawned (snd (run evs w)) = spawned w"
proof (induction evs arbitrary: w c S)
  case Nil
  then show ?case by simp
next
  case (Cons ev evs)
  have ns: "ev \<noteq> Call Stop" "no_stop evs" using Cons.prems(3) by (simp_all add: no_stop_def)
  note st = post_step[OF Cons.prems(1,2) ns(1)]
  from st(1) obtain c' where c': "worker (snd (step ev w)) = Some c'"
    "post_handshake d (S \<union> set (sent [ev])) c'" by blast
  from Cons.IH[OF c' ns(2)] st(2,3,4) show ?case
    unfolding sent_Cons_set[of ev evs] snd_run_Cons fst_run_Cons
    by (auto simp: Un_assoc)
qed

lemma pre_run:
  "worker w = Some c \<Longrightarrow> pre_handshake d S c \<Longrightarrow> no_stop evs \<Longrightarrow>
   (\<exists>c'. worker (snd (run evs w)) = Some c'
      \<and> (if DeliverToWorker \<in> set evs then post_handshake d (S \<union> set (sent evs)) c'
          else pre_handshake d (S \<union> set (sent evs)) c'))
   \<and> workerFn_calls (fst (run evs w)) = (if DeliverToWorker \<in> set evs then [Some d] else [])
   \<and> set (polled (fst (run evs w))) \<subseteq> S \<union> set (sent evs)
   \<and> spawned (snd (run evs w)) = spawned w"
proof (induction evs arbitrary: w c S)
  case Nil
  then show ?case by simp
next
  case (Cons ev evs)
  have ns: "ev \<noteq> Call Stop" "no_stop evs" using Cons.prems(3) by (simp_all add: no_stop_def)
  show ?case
  proof (cases "ev = DeliverToWorker")
    case True
    note st = pre_deliver[OF Cons.prems(1,2)]
    from st(1) obtain c' where c': "worker (snd (step DeliverToWorker w)) = Some c'"
      "post_handshake d S c'" by blast
    from post_run[OF c' ns(2)] st(2,3,4) True show ?thesis
      unfolding snd_run_Cons fst_run_Cons by auto
  next
    case False
    note st = pre_step[OF Cons.prems(1,2) ns(1) False]
    from st(1) obtain c' where c': "worker (snd (step ev w)) = Some c'"
      "pre_handshake d (S \<union> set (sent [ev])) c'" by blast
    from Cons.IH[OF c' ns(2)] st(2,3,4) False show ?thesis
      unfolding sent_Cons_set[of ev evs] snd_run_Cons fst_run_Cons
      by (auto simp: Un_assoc)
  qed
qed

lemma pre_facts:
  assumes "pre_handshake d S c"
  shows "fresh (inner c) = 1" "pendingReceivers (inner c) = [boot_promise]"
    "promises (inner c) boot_promise = Some Pending" "timers (inner c) boot_promise = None"
    "messageQueue (inner c) = []" "\<forall>p. p \<noteq> boot_promise \<longrightarrow> promises (inner c) p = None"
  using assms
  by (auto simp: pre_handshake_def mailbox_receive_def empty_mailbox_def boot_promise_def
        Let_def)

lemma never_loaded_step:
  assumes "worker w = Some c" "never_loaded c" "ev \<noteq> Call Stop"
  shows "\<exists>c'. worker (snd (step ev w)) = Some c' \<and> never_loaded c'"
    "workerFn_calls (fst (step ev w)) = []" "polled (fst (step ev w)) = []"
    "spawned (snd (step ev w)) = spawned w"
proof -
  have "(\<exists>c'. worker (snd (step ev w)) = Some c' \<and> never_loaded c')
      \<and> workerFn_calls (fst (step ev w)) = [] \<and> polled (fst (step ev w)) = []
      \<and> spawned (snd (step ev w)) = spawned w"
  proof (cases ev)
    case (Call k)
    with assms show ?thesis
      by (cases k)
         (auto simp: never_loaded_def start_def send_def receive_def poll_def subscribe_def
            unsubscribe_def split_def Let_def)
  next
    case DeliverToMain
    with assms show ?thesis
      by (auto simp: never_loaded_def deliver_to_main_def split_def Let_def split: list.splits)
  qed (use assms in \<open>auto simp: never_loaded_def deliver_to_worker_def\<close>)
  then show "\<exists>c'. worker (snd (step ev w)) = Some c' \<and> never_loaded c'"
    "workerFn_calls (fst (step ev w)) = []" "polled (fst (step ev w)) = []"
    "spawned (snd (step ev w)) = spawned w"
    by blast+
qed

lemma never_loaded_run:
  "worker w = Some c \<Longrightarrow> never_loaded c \<Longrightarrow> no_stop evs \<Longrightarrow>
   (\<exists>c'. worker (snd (run evs w)) = Some c' \<and> never_loaded c')
   \<and> workerFn_calls (fst (run evs w)) = []
   \<and> polled (fst (run evs w)) = []
   \<and> spawned (snd (run evs w)) = spawned w"
proof (induction evs arbitrary: w c)
  case Nil
  then show ?case by simp
next
  case (Cons ev evs)
  have ns: "ev \<noteq> Call Stop" "no_stop evs" using Cons.prems(3) by (simp_all add: no_stop_def)
  note st = never_loaded_step[OF Cons.prems(1,2) ns(1)]
  from st(1) obtain c' where c': "worker (snd (step ev w)) = Some c'" "never_loaded c'"
    by blast
  from Cons.IH[OF c' ns(2)] st(2,3,4) show ?case
    unfolding snd_run_Cons fst_run_Cons by auto
qed

lemma never_loaded_facts:
  assumes "never_loaded c"
  shows "workerFn_called c = None" "messageQueue (inner c) = []"
    "promises (inner c) p = None"
  using assms by (simp_all add: never_loaded_def workerFn_called_def empty_mailbox_def)

lemma start_without_worker:
  assumes "worker w = None"
  shows "\<exists>c. worker (start d w) = Some c \<and> inbox c = [d]
          \<and> (if url_revoked w then never_loaded c else pre_handshake d {} c)"
    "spawned (start d w) = Suc (spawned w)"
  using assms
  by (auto simp: start_def new_Worker_def workerBootstrap_def pre_handshake_def
        never_loaded_def mailbox_receive_def empty_mailbox_def Let_def)

text \<open>
  C3. Let \<^verbatim>\<open>start(d)\<close> be called when there is no worker, followed by any events but
  \<^verbatim>\<open>stop\<close> (later \<^verbatim>\<open>start\<close> calls among them, which do nothing). It makes one worker
  and posts \<open>d\<close> to it as the first message. \<^verbatim>\<open>workerFn\<close> is called once the first
  message has been dispatched in the worker, not before, only once, and with \<^verbatim>\<open>data\<close>
  equal to \<open>d\<close>. Until then the worker has made one \<^verbatim>\<open>receive\<close> call, without a timer,
  whose receiver is the only pending one. All that the worker's \<^verbatim>\<open>poll\<close> returns, all
  that its queue holds and all that its other \<^verbatim>\<open>receive\<close> promises are resolved with
  are messages passed to \<^verbatim>\<open>send\<close>: the initialization payload is not among them unless
  it is sent again. (A worker made after \<^verbatim>\<open>stop\<close> revoked the object URL never runs its
  script, so \<^verbatim>\<open>workerFn\<close> is not called in it at all.)
\<close>

theorem handshake:
  assumes "worker w0 = None" and "w1 = start d w0"
    and "no_stop evs" and "run evs w1 = (obs, w)"
  shows "map_option inbox (worker w1) = Some [d]
     \<and> spawned w = Suc (spawned w0)
     \<and> workerFn_calls obs
         = (if \<not> url_revoked w0 \<and> DeliverToWorker \<in> set evs then [Some d] else [])
     \<and> set (polled obs) \<subseteq> set (sent evs)
     \<and> (\<exists>c. worker w = Some c
          \<and> workerFn_called c
              = (if \<not> url_revoked w0 \<and> DeliverToWorker \<in> set evs then Some (Some d) else None)
          \<and> (\<not> url_revoked w0 \<and> workerFn_called c = None \<longrightarrow>
                fresh (inner c) = 1 \<and> pendingReceivers (inner c) = [boot_promise]
              \<and> promises (inner c) boot_promise = Some Pending
              \<and> timers (inner c) boot_promise = None)
          \<and> set (messageQueue (inner c)) \<subseteq> set (sent evs)
          \<and> (\<forall>p m. p \<noteq> boot_promise \<and> promises (inner c) p = Some (Resolved (Some m))
                \<longrightarrow> m \<in> set (sent evs)))"
proof -
  from start_without_worker[OF assms(1), of d] assms(2)
  obtain c1 where c1: "worker w1 = Some c1" "inbox c1 = [d]"
    "if url_revoked w0 then never_loaded c1 else pre_handshake d {} c1"
    and s1: "spawned w1 = Suc (spawned w0)" by auto
  from assms(4) have ow: "obs = fst (run evs w1)" "w = snd (run evs w1)" by simp_all
  show ?thesis
  proof (cases "url_revoked w0")
    case True
    with c1(3) have nl: "never_loaded c1" by simp
    from never_loaded_run[OF c1(1) nl assms(3), folded ow]
    obtain c where c: "worker w = Some c" "never_loaded c"
      and o: "workerFn_calls obs = []" "polled obs = []" "spawned w = spawned w1"
      by blast
    from c(1) never_loaded_facts[OF c(2)] o c1 s1 True show ?thesis by auto
  next
    case False
    with c1(3) have pre: "pre_handshake d {} c1" by simp
    note pr = pre_run[OF c1(1) pre assms(3), unfolded Un_empty_left, folded ow]
    from pr
    have ex: "\<exists>c. worker w = Some c
        \<and> (if DeliverToWorker \<in> set evs then post_handshake d (set (sent evs)) c
            else pre_handshake d (set (sent evs)) c)"
      and fn: "workerFn_calls obs = (if DeliverToWorker \<in> set evs then [Some d] else [])"
      and po: "set (polled obs) \<subseteq> set (sent evs)"
      and sp: "spawned w = spawned w1"
      by blast+
    from ex obtain c where c: "worker w = Some c"
      "if DeliverToWorker \<in> set evs then post_handshake d (set (sent evs)) c
       else pre_handshake d (set (sent evs)) c"
      by blast
    have "workerFn_called c = (if DeliverToWorker \<in> set evs then Some (Some d) else None)
          \<and> (workerFn_called c = None \<longrightarrow>
                fresh (inner c) = 1 \<and> pendingReceivers (inner c) = [boot_promise]
              \<and> promises (inner c) boot_promise = Some Pending
              \<and> timers (inner c) boot_promise = None)
          \<and> set (messageQueue (inner c)) \<subseteq> set (sent evs)
          \<and> (\<forall>p m. p \<noteq> boot_promise \<and> promises (inner c) p = Some (Resolved (Some m))
                \<longrightarrow> m \<in> set (sent evs))"
    proof (cases "DeliverToWorker \<in> set evs")
      case True
      with c(2) have p: "post_handshake d (set (sent evs)) c" by simp
      from post_called[OF p] p True show ?thesis by (auto simp: post_handshake_def)
    next
      case False
      with c(2) have p: "pre_handshake d (set (sent evs)) c" by simp
      from pre_not_called[OF p] pre_facts[OF p] False show ?thesis by auto
    qed
    with c(1) c1 fn po sp s1 False show ?thesis by auto
  qed
qed

theorem handshake_witness:
  "no_stop [Call (Send (1::nat)), Call (Start 9), DeliverToWorker, DeliverToWorker,
        WorkerCall WPoll, WorkerCall WPoll]
   \<and> workerFn_calls (fst (run [Call (Send 1), Call (Start 9), DeliverToWorker, DeliverToWorker,
        WorkerCall WPoll, WorkerCall WPoll]
        (start 7 (snd (run [Call (Send (5::nat))] new_channel))))) = [Some 7]
   \<and> polled (fst (run [Call (Send 1), Call (Start 9), DeliverToWorker, DeliverToWorker,
        WorkerCall WPoll, WorkerCall WPoll]
        (start 7 (snd (run [Call (Send (5::nat))] new_channel))))) = [1]"
proof -
  let ?evs = "[Call (Send (1::nat)), Call (Start 9), DeliverToWorker, DeliverToWorker,
        WorkerCall WPoll, WorkerCall WPoll]"
  let ?w0 = "snd (run [Call (Send (5::nat))] new_channel)"
  have h1: "worker ?w0 = None" by (simp add: channel_defs)
  have u: "\<not> url_revoked ?w0" by (simp add: channel_defs)
  have h3: "no_stop ?evs" by (simp add: no_stop_def)
  have h4: "run ?evs (start 7 ?w0) = (fst (run ?evs (start 7 ?w0)), snd (run ?evs (start 7 ?w0)))"
    by simp
  have po: "polled (fst (run ?evs (start 7 ?w0))) = [1]"
    by (simp add: channel_defs worker_defs)
  from handshake[OF h1 refl h3 h4] u h3 po show ?thesis by simp
qed



end
